theory Spec2Isabelle
  imports Main
begin

section \<open>The Store pool module (controller/src/db.ts)\<close>

text \<open>
  The module keeps two flags, \<open>isPoolHealthy\<close> and \<open>isPoolClosed\<close>, next to the Knex
  handle \<open>db\<close>. The handle is outside the module, so the model records every call made on
  it (\<open>db.raw\<close>, \<open>db.destroy\<close>) in \<open>dbCalls\<close>, in order, and takes the outcome of each
  call (the promise resolves or rejects) as an argument of the operation that awaits it.
  JavaScript runs each function up to its first \<open>await\<close> without interruption, so one
  operation of the model is one such uninterrupted run.
\<close>

datatype db_call = Raw string | Destroy

datatype 'a promise = Resolved 'a | Rejected

record pool_state =
  isPoolHealthy :: bool
  isPoolClosed :: bool
  dbCalls :: "db_call list"

definition pool_init :: pool_state where
  "pool_init = \<lparr> isPoolHealthy = True, isPoolClosed = False, dbCalls = [] \<rparr>"

text \<open>The pool's event listeners: \<open>createSuccess\<close>, \<open>createFail\<close> (which also arms a
  five-second timer), the timer's callback, and \<open>destroySuccess\<close> (which only logs).\<close>

definition on_createSuccess :: "pool_state \<Rightarrow> pool_state" where
  "on_createSuccess st = st\<lparr> isPoolHealthy := True \<rparr>"

definition on_createFail :: "pool_state \<Rightarrow> pool_state" where
  "on_createFail st = st\<lparr> isPoolHealthy := False \<rparr>"

definition on_recoveryTimer :: "pool_state \<Rightarrow> pool_state" where
  "on_recoveryTimer st = st\<lparr> isPoolHealthy := True \<rparr>"

definition on_destroySuccess :: "pool_state \<Rightarrow> pool_state" where
  "on_destroySuccess st = st"

text \<open>\<open>checkDatabaseHealth\<close>: the argument \<open>q\<close> is what \<open>db.raw('SELECT 1')\<close> would give, the
  rows of the result or a rejection. The query is issued only past the first guard.\<close>

definition checkDatabaseHealth :: "pool_state \<Rightarrow> 'r list promise \<Rightarrow> bool \<times> pool_state" where
  "checkDatabaseHealth st q =
     (if \<not> isPoolHealthy st then (False, st)
      else
        (case q of
           Resolved rows \<Rightarrow> length rows = 1
         | Rejected \<Rightarrow> False,
         st\<lparr> dbCalls := dbCalls st @ [Raw ''SELECT 1''] \<rparr>))"

text \<open>\<open>closeDatabasePool\<close>: the argument \<open>d\<close> is the outcome of \<open>db.destroy()\<close>; the flag is
  set before the call, and a rejection of \<open>db.destroy()\<close> is the rejection of the function.\<close>

definition closeDatabasePool :: "pool_state \<Rightarrow> unit promise \<Rightarrow> unit promise \<times> pool_state" where
  "closeDatabasePool st d =
     (if isPoolClosed st then (Resolved (), st)
      else (d, st\<lparr> isPoolClosed := True, dbCalls := dbCalls st @ [Destroy] \<rparr>))"

text \<open>Everything that can happen to the module, in any order: pool events, health checks
  and calls of \<open>closeDatabasePool\<close> (the SIGTERM and SIGINT handlers call it and then leave
  the process; the shutdown path of the server calls it as well).\<close>

datatype pool_event =
    CreateSuccess
  | CreateFail
  | RecoveryTimer
  | DestroySuccess
  | HealthCheck "unit list promise"
  | Close "unit promise"

fun pool_step :: "pool_state \<Rightarrow> pool_event \<Rightarrow> pool_state" where
  "pool_step st CreateSuccess = on_createSuccess st"
| "pool_step st CreateFail = on_createFail st"
| "pool_step st RecoveryTimer = on_recoveryTimer st"
| "pool_step st DestroySuccess = on_destroySuccess st"
| "pool_step st (HealthCheck q) = snd (checkDatabaseHealth st q)"
| "pool_step st (Close d) = snd (closeDatabasePool st d)"

definition pool_run :: "pool_event list \<Rightarrow> pool_state" where
  "pool_run evs = foldl pool_step pool_init evs"

fun is_Close :: "pool_event \<Rightarrow> bool" where
  "is_Close (Close d) = True"
| "is_Close e = False"

text \<open>The reading of the health claim: the \<open>SELECT 1\<close> round trip succeeded with one row.\<close>

fun select1_succeeds :: "'r list promise \<Rightarrow> bool" where
  "select1_succeeds (Resolved rows) = (length rows = 1)"
| "select1_succeeds Rejected = False"

section \<open>The Store schema (controller/src/migrations) and inserts into it\<close>

text \<open>
  The two migrations create the tables \<open>sessions\<close> and \<open>token_jti\<close>; the test setup
  (tests/setup.ts) creates the same two tables with the same columns and constraints, and
  its query builder turns \<open>db(table).insert(data)\<close> into one statement
  \<open>INSERT INTO table (keys) VALUES (values)\<close>. The schema is data here, built with the
  column builders the migrations use; the insert is the SQL statement, checked against the
  constraints of the schema. The two plain indexes on \<open>expires_at\<close> and the one on
  \<open>owner_user_id\<close> constrain nothing and are left out.
\<close>

datatype sql_value = SqlNull | SqlText string | SqlTimestamp int

datatype col_type = TText | TTimestampTz

datatype col_default = NoDefault | UuidGenerateV4 | FnNow

record column =
  colName :: string
  colType :: col_type
  colPrimary :: bool
  colNotNull :: bool
  colUnique :: bool
  colDefault :: col_default

definition text_col :: "string \<Rightarrow> column" where
  "text_col n = \<lparr> colName = n, colType = TText, colPrimary = False, colNotNull = False,
                  colUnique = False, colDefault = NoDefault \<rparr>"

definition timestamp_col :: "string \<Rightarrow> column" where
  "timestamp_col n = \<lparr> colName = n, colType = TTimestampTz, colPrimary = False,
                       colNotNull = False, colUnique = False, colDefault = NoDefault \<rparr>"

definition primary :: "column \<Rightarrow> column" where
  "primary c = c\<lparr> colPrimary := True \<rparr>"

definition notNullable :: "column \<Rightarrow> column" where
  "notNullable c = c\<lparr> colNotNull := True \<rparr>"

definition unique :: "column \<Rightarrow> column" where
  "unique c = c\<lparr> colUnique := True \<rparr>"

definition defaultTo :: "col_default \<Rightarrow> column \<Rightarrow> column" where
  "defaultTo d c = c\<lparr> colDefault := d \<rparr>"

text \<open>Migration 20250126000001, \<open>up\<close>: the table \<open>sessions\<close>.\<close>

definition sessions_table :: "column list" where
  "sessions_table =
     [ defaultTo UuidGenerateV4 (primary (text_col ''session_id'')),
       notNullable (text_col ''owner_user_id''),
       unique (notNullable (text_col ''job_name'')),
       text_col ''pod_name'',
       text_col ''pod_ip'',
       defaultTo FnNow (timestamp_col ''created_at''),
       notNullable (timestamp_col ''expires_at'') ]"

text \<open>Migration 20250126000002, \<open>up\<close>: the table \<open>token_jti\<close>.\<close>

definition token_jti_table :: "column list" where
  "token_jti_table =
     [ primary (text_col ''jti''),
       notNullable (text_col ''session_id''),
       notNullable (timestamp_col ''expires_at'') ]"

text \<open>
  A stored row gives every column of the table a value, in the order of the columns. The
  data of an insert names some columns; a column it does not name takes its default, and
  NULL when it has none. \<open>uuid\<close> and \<open>now\<close> are what \<open>uuid_generate_v4()\<close> and \<open>now()\<close>
  return for the statement. Column names are compared exactly, as for the quoted
  identifiers that knex sends (the query builder of the tests sends them unquoted, and
  the database then folds them to lower case). The values of the data are taken as the
  database reads them: \<open>fits\<close> refuses a value of the other type, where the database would
  first try to convert the literal; the statements below are about text in text columns
  and timestamps in timestamp columns.
\<close>

type_synonym row = "(string \<times> sql_value) list"

record sql_ctx =
  uuid :: string
  now :: int

datatype sql_error =
    UndefinedTable string
  | UndefinedColumn string
  | DatatypeMismatch string
  | NotNullViolation string
  | UniqueViolation string

definition field :: "row \<Rightarrow> string \<Rightarrow> sql_value" where
  "field r n = (case map_of r n of Some v \<Rightarrow> v | None \<Rightarrow> SqlNull)"

fun fits :: "col_type \<Rightarrow> sql_value \<Rightarrow> bool" where
  "fits t SqlNull = True"
| "fits TText (SqlText s) = True"
| "fits TTimestampTz (SqlTimestamp t) = True"
| "fits t v = False"

definition column_value :: "sql_ctx \<Rightarrow> row \<Rightarrow> column \<Rightarrow> sql_value" where
  "column_value ctx data c =
     (case map_of data (colName c) of
        Some v \<Rightarrow> v
      | None \<Rightarrow>
          (case colDefault c of
             NoDefault \<Rightarrow> SqlNull
           | UuidGenerateV4 \<Rightarrow> SqlText (uuid ctx)
           | FnNow \<Rightarrow> SqlTimestamp (now ctx)))"

definition new_row :: "column list \<Rightarrow> sql_ctx \<Rightarrow> row \<Rightarrow> row" where
  "new_row cols ctx data = map (\<lambda>c. (colName c, column_value ctx data c)) cols"

definition violates_not_null :: "row \<Rightarrow> column \<Rightarrow> bool" where
  "violates_not_null r c = ((colPrimary c \<or> colNotNull c) \<and> field r (colName c) = SqlNull)"

definition violates_unique :: "row list \<Rightarrow> row \<Rightarrow> column \<Rightarrow> bool" where
  "violates_unique rows r c =
     ((colPrimary c \<or> colUnique c) \<and> field r (colName c) \<noteq> SqlNull
      \<and> field r (colName c) \<in> (\<lambda>r'. field r' (colName c)) ` set rows)"

text \<open>\<open>INSERT INTO t (keys) VALUES (values)\<close> on a table with columns \<open>cols\<close> and rows
  \<open>rows\<close>: the new rows, or the error that aborts the statement.\<close>

definition insert_row :: "column list \<Rightarrow> sql_ctx \<Rightarrow> row list \<Rightarrow> row \<Rightarrow> sql_error + row list" where
  "insert_row cols ctx rows data =
     (case List.find (\<lambda>k. k \<notin> set (map colName cols)) (map fst data) of
        Some k \<Rightarrow> Inl (UndefinedColumn k)
      | None \<Rightarrow>
     (case List.find (\<lambda>c. \<not> fits (colType c) (field (new_row cols ctx data) (colName c))) cols of
        Some c \<Rightarrow> Inl (DatatypeMismatch (colName c))
      | None \<Rightarrow>
     (case List.find (violates_not_null (new_row cols ctx data)) cols of
        Some c \<Rightarrow> Inl (NotNullViolation (colName c))
      | None \<Rightarrow>
     (case List.find (violates_unique rows (new_row cols ctx data)) cols of
        Some c \<Rightarrow> Inl (UniqueViolation (colName c))
      | None \<Rightarrow> Inr (rows @ [new_row cols ctx data])))))"

text \<open>The database of the two tables, and \<open>db(tableName).insert(data)\<close> on it. A statement
  that fails leaves the database as it was.\<close>

record database =
  sessions :: "row list"
  token_jti :: "row list"

definition db_empty :: database where
  "db_empty = \<lparr> sessions = [], token_jti = [] \<rparr>"

definition insert_into :: "database \<Rightarrow> sql_ctx \<Rightarrow> string \<Rightarrow> row \<Rightarrow> sql_error option \<times> database" where
  "insert_into db ctx tableName data =
     (if tableName = ''sessions'' then
        (case insert_row sessions_table ctx (sessions db) data of
           Inl e \<Rightarrow> (Some e, db)
         | Inr rows \<Rightarrow> (None, db\<lparr> sessions := rows \<rparr>))
      else if tableName = ''token_jti'' then
        (case insert_row token_jti_table ctx (token_jti db) data of
           Inl e \<Rightarrow> (Some e, db)
         | Inr rows \<Rightarrow> (None, db\<lparr> token_jti := rows \<rparr>))
      else (Some (UndefinedTable tableName), db))"

text \<open>The databases that inserts can make: any list of insert statements, each with its
  own context, table and data, run from the empty database.\<close>

definition db_step :: "database \<Rightarrow> sql_ctx \<times> string \<times> row \<Rightarrow> database" where
  "db_step db q = (case q of (ctx, tableName, data) \<Rightarrow> snd (insert_into db ctx tableName data))"

definition db_run :: "(sql_ctx \<times> string \<times> row) list \<Rightarrow> database" where
  "db_run qs = foldl db_step db_empty qs"

text \<open>A key column of a table: every row has a value in it, and no two rows the same.\<close>

definition key_column :: "string \<Rightarrow> row list \<Rightarrow> bool" where
  "key_column n rows =
     (distinct (map (\<lambda>r. field r n) rows) \<and> SqlNull \<notin> (\<lambda>r. field r n) ` set rows)"

text \<open>The order the data model asks of a session row: \<open>expires_at\<close> after \<open>created_at\<close>,
  both being timestamps. \<open>ttl_insert\<close> is the shape of an insert that leaves \<open>created_at\<close>
  to its default and sets \<open>expires_at\<close> to a time after the statement's \<open>now()\<close>.\<close>

fun ts_less :: "sql_value \<Rightarrow> sql_value \<Rightarrow> bool" where
  "ts_less (SqlTimestamp a) (SqlTimestamp b) = (a < b)"
| "ts_less v w = False"

definition expires_after_created :: "row \<Rightarrow> bool" where
  "expires_after_created r = ts_less (field r ''created_at'') (field r ''expires_at'')"

definition ttl_insert :: "sql_ctx \<Rightarrow> row \<Rightarrow> bool" where
  "ttl_insert ctx data =
     (map_of data ''created_at'' = None
      \<and> (case map_of data ''expires_at'' of
           Some (SqlTimestamp e) \<Rightarrow> now ctx < e
         | _ \<Rightarrow> False))"

section \<open>The runner's entrypoint (runner/entrypoint.sh)\<close>

text \<open>
  The script runs under \<open>set -euo pipefail\<close>. Its inputs are environment variables; what
  it does is run commands. The model takes the environment as a record of optional strings
  (\<open>None\<close> is an unset variable) and keeps the list of the commands run so far, in order.
  What a command answers is not the script's to decide: a \<open>world\<close> gives, for the commands
  run so far and the next command, the exit status and the standard output of that command.
  \<open>echo\<close> prints and is taken to succeed. Waiting for the terminal server can take for
  ever, so \<open>wait_ttyd\<close> answers \<open>None\<close> when the wait never returns. A \<open>string\<close> is the
  list of the bytes of a value; how many characters the shell sees in it depends on the
  locale the script runs in, which nothing in the repository fixes, so the world also
  gives \<open>char_count\<close>, the number that \<open>${#v}\<close> expands to for a value \<open>v\<close>. Signals (the
  \<open>trap\<close>) and the background loop that copies the tmux pane to the console are outside
  the model; the latter runs no command whose status the script reads.
\<close>

record env =
  CODE_URL :: "string option"
  COMMAND :: "string option"
  INSTALL_CMD :: "string option"
  CODE_CHECKSUM_SHA256 :: "string option"
  EXIT_ON_JOB :: "string option"
  TMUX_SESSION :: "string option"
  TMUX_SOCKET :: "string option"
  TTYD_PORT :: "string option"

datatype cmd =
    Echo string
  | Cd string
  | MkdirP string
  | MktempD
  | CurlTarball string string
  | FindDir string string
  | MvContents string string
  | RmRf string
  | LsLa string
  | Curl string string
  | GitClone string string
  | TestF string
  | Sha256sumCheck string string
  | Unzip string string
  | TarX string string bool
  | Pwd
  | TestSingleEntry
  | TestFirstEntryIsDir
  | CdFirstEntry
  | Bash string
  | WriteTmuxConf
  | TmuxNewSession string string string string
  | TmuxHasSession string string
  | TtydStart string string string
  | Sleep nat
  | Cat string
  | KillTermTtyd
  | WaitTtyd

text \<open>
  The commands, by the lines of the script that run them:
  \<^item> \<open>CurlTarball url dir\<close>: \<open>curl -fL url | tar xz -C dir\<close> (one pipeline, one status);
  \<^item> \<open>FindDir dir name\<close>: \<open>find dir -type d -name name | head -1\<close>;
  \<^item> \<open>MvContents dir target\<close>: \<open>mv dir/* target\<close>;
  \<^item> \<open>LsLa dir\<close>: \<open>ls -la dir\<close>, with the empty string for no argument;
  \<^item> \<open>Curl url file\<close>: \<open>curl -fL url -o file\<close>;
  \<^item> \<open>GitClone url dir\<close>: \<open>git clone --depth=1 url dir\<close>;
  \<^item> \<open>TestF file\<close>: \<open>[ -f file ]\<close>;
  \<^item> \<open>Sha256sumCheck sum file\<close>: \<open>echo "sum  file" | sha256sum -c -\<close>;
  \<^item> \<open>Unzip file dir\<close>: \<open>unzip -q file -d dir\<close>;
  \<^item> \<open>TarX file dir strip\<close>: \<open>tar -xzf file -C dir\<close>, with \<open>--strip-components=1\<close> when
    \<open>strip\<close>;
  \<^item> \<open>TestSingleEntry\<close>: \<open>[ $(ls -1 | wc -l) -eq 1 ]\<close>; \<open>TestFirstEntryIsDir\<close>:
    \<open>[ -d "$(ls -1 | head -n1)" ]\<close>; \<open>CdFirstEntry\<close>: \<open>cd "$(ls -1 | head -n1)"\<close>;
  \<^item> \<open>Bash c\<close>: \<open>/bin/bash -c c\<close>;
  \<^item> \<open>WriteTmuxConf\<close>: the here-document written to \<open>~/.tmux.conf\<close>;
  \<^item> \<open>TmuxNewSession socket session command exit_file\<close>: \<open>tmux -S socket new-session -d -s
    session\<close> of the shell line that runs \<open>bash -c command\<close>, writes its status to
    \<open>exit_file\<close> and exits with it;
  \<^item> \<open>TmuxHasSession socket session\<close>: \<open>tmux -S socket has-session -t session\<close>;
  \<^item> \<open>TtydStart port socket session\<close>: \<open>ttyd -p port -- tmux -S socket new -A -s session &\<close>;
  \<^item> \<open>Cat file\<close>: \<open>cat file 2>/dev/null\<close>; \<open>KillTermTtyd\<close>: \<open>kill -TERM $ttyd_pid\<close>;
    \<open>WaitTtyd\<close>: \<open>wait $ttyd_pid\<close>.
\<close>

record world =
  sys :: "cmd list \<Rightarrow> cmd \<Rightarrow> nat \<times> string"
  wait_ttyd :: "cmd list \<Rightarrow> nat option"
  char_count :: "string \<Rightarrow> nat"

text \<open>A part of the script either leaves the script with an exit status or goes on with a
  value; both carry the commands run so far.\<close>

datatype 'a flow = Exit nat "cmd list" | Next 'a "cmd list"

fun issued :: "'a flow \<Rightarrow> cmd list" where
  "issued (Exit n tr) = tr"
| "issued (Next x tr) = tr"

definition and_then :: "'a flow \<Rightarrow> ('a \<Rightarrow> cmd list \<Rightarrow> 'b flow) \<Rightarrow> 'b flow" where
  "and_then f g = (case f of Exit n tr \<Rightarrow> Exit n tr | Next x tr \<Rightarrow> g x tr)"

definition say :: "string \<Rightarrow> cmd list \<Rightarrow> cmd list" where
  "say msg tr = tr @ [Echo msg]"

text \<open>\<open>attempt\<close> runs a command whose status the script tests itself (in an \<open>if\<close>, or on
  the left of \<open>||\<close>); \<open>must\<close> runs a command under \<open>set -e\<close>: a status other than 0 leaves
  the script with that status. Both give the command's output.\<close>

definition attempt :: "world \<Rightarrow> cmd \<Rightarrow> cmd list \<Rightarrow> (nat \<times> string) \<times> cmd list" where
  "attempt w c tr = (sys w tr c, tr @ [c])"

definition must :: "world \<Rightarrow> cmd \<Rightarrow> cmd list \<Rightarrow> string flow" where
  "must w c tr =
     (if fst (sys w tr c) = 0 then Next (snd (sys w tr c)) (tr @ [c])
      else Exit (fst (sys w tr c)) (tr @ [c]))"

subsection \<open>Patterns\<close>

text \<open>The patterns of the \<open>case\<close> statement use no special character but \<open>*\<close>, which
  matches any string, the empty one and slashes included.\<close>

datatype glob_tok = Star | Lit char

definition glob :: "string \<Rightarrow> glob_tok list" where
  "glob p = map (\<lambda>c. if c = CHR ''*'' then Star else Lit c) p"

fun glob_match :: "glob_tok list \<Rightarrow> string \<Rightarrow> bool" where
  "glob_match [] s = (s = [])"
| "glob_match (Lit c # p) [] = False"
| "glob_match (Lit c # p) (x # s) = (c = x \<and> glob_match p s)"
| "glob_match (Star # p) [] = glob_match p []"
| "glob_match (Star # p) (x # s) = (glob_match p (x # s) \<or> glob_match (Star # p) s)"

fun starts_with :: "string \<Rightarrow> string \<Rightarrow> bool" where
  "starts_with [] s = True"
| "starts_with (p # ps) [] = False"
| "starts_with (p # ps) (x # s) = (p = x \<and> starts_with ps s)"

fun contains :: "string \<Rightarrow> string \<Rightarrow> bool" where
  "contains p [] = (p = [])"
| "contains p (x # s) = (starts_with p (x # s) \<or> contains p s)"

text \<open>
  \<open>GITHUB_REGEX\<close> is \<open>github.com/([^/]+)/([^/]+)/tree/([^/]+)/(.+)\<close>, matched anywhere in
  the URL; its dot is the regular expression's any character. A group \<open>[^/]+\<close> holds no
  slash and a slash follows it, so from a given start the first three groups are the
  stretches up to the next slash, and \<open>(.+)\<close> is all the rest; the match that counts is the
  leftmost. \<open>regex_here\<close> matches at the start of its argument, \<open>regex_search\<close> at the first
  position that matches. The groups are OWNER, REPO, REF and FOLDER.
\<close>

definition no_slash :: "char \<Rightarrow> bool" where
  "no_slash c = (c \<noteq> CHR ''/'')"

definition regex_here :: "string \<Rightarrow> (string \<times> string \<times> string \<times> string) option" where
  "regex_here s =
     (if \<not> (starts_with ''github'' s \<and> 6 < length s \<and> starts_with ''com/'' (drop 7 s)) then None
      else
        let r0 = drop 11 s;
            owner = takeWhile no_slash r0;
            r1 = dropWhile no_slash r0
        in if owner = [] \<or> r1 = [] then None
        else
          let r2 = tl r1;
              repo = takeWhile no_slash r2;
              r3 = dropWhile no_slash r2
          in if repo = [] \<or> \<not> starts_with ''/tree/'' r3 then None
          else
            let r4 = drop 6 r3;
                ref = takeWhile no_slash r4;
                r5 = dropWhile no_slash r4
            in if ref = [] \<or> r5 = [] \<or> tl r5 = [] then None
            else Some (owner, repo, ref, tl r5))"

fun regex_search :: "string \<Rightarrow> (string \<times> string \<times> string \<times> string) option" where
  "regex_search [] = regex_here []"
| "regex_search (x # s) =
     (case regex_here (x # s) of Some m \<Rightarrow> Some m | None \<Rightarrow> regex_search s)"

subsection \<open>Lines 4 to 28: the required variable and the validation of the commands\<close>

text \<open>\<open>validate_command\<close> gives its return status and the lines it prints. Line 16
  compares \<open>${#cmd}\<close>, the number of characters of the value in the shell's locale, with
  500; in the C locale that number is the number of bytes.\<close>

definition dangerous_patterns :: "string \<Rightarrow> bool" where
  "dangerous_patterns cmd = (contains ''$('' cmd \<or> contains ''`'' cmd \<or> contains ''${'' cmd)"

definition validate_command :: "world \<Rightarrow> string \<Rightarrow> nat \<times> string list" where
  "validate_command w cmd =
     (if dangerous_patterns cmd
      then (1, [''[fatal] Command contains dangerous substitution patterns''])
      else if char_count w cmd > 500
      then (1, [''[fatal] Command exceeds maximum length''])
      else (0, []))"

text \<open>\<open>if [ -n "${VAR:-}" ]; then validate_command "${VAR}" || exit 1; fi\<close>\<close>

definition validate_var :: "world \<Rightarrow> string option \<Rightarrow> cmd list \<Rightarrow> unit flow" where
  "validate_var w v tr =
     (case v of
        None \<Rightarrow> Next () tr
      | Some c \<Rightarrow>
          if c = [] then Next () tr
          else if fst (validate_command w c) = 0
          then Next () (tr @ map Echo (snd (validate_command w c)))
          else Exit 1 (tr @ map Echo (snd (validate_command w c))))"

text \<open>Line 4 expands \<open>${CODE_URL}\<close> under \<open>set -u\<close>: an unset variable ends the script
  with status 1 before anything is printed.\<close>

definition check_inputs :: "world \<Rightarrow> env \<Rightarrow> string flow" where
  "check_inputs w e =
     (case CODE_URL e of
        None \<Rightarrow> Exit 1 []
      | Some url \<Rightarrow>
          if url = []
          then Exit 2 (say ''[fatal] CODE_URL is required'' (say (''[entrypoint] CODE_URL='' @ url) []))
          else
            and_then (validate_var w (COMMAND e) (say (''[entrypoint] CODE_URL='' @ url) []))
              (\<lambda>_ tr. and_then (validate_var w (INSTALL_CMD e) tr)
              (\<lambda>_ tr. Next url tr)))"

subsection \<open>Lines 30 to 92: fetching the code\<close>

text \<open>The branch of a GitHub tree URL. It gives FOLDER, and the empty string as the new
  value of CODE_CHECKSUM_SHA256 (line 80).\<close>

definition github_tree :: "world \<Rightarrow> string \<Rightarrow> cmd list \<Rightarrow> (string \<times> string) flow" where
  "github_tree w url tr0 =
     (let tr1 = say ''[entrypoint] Detected GitHub tree URL, extracting folder...'' tr0 in
      case regex_search url of
        None \<Rightarrow> Exit 3 (say ''[fatal] Could not parse GitHub tree URL'' tr1)
      | Some (owner, repo, ref, folder) \<Rightarrow>
          let tarball = ''https://api.github.com/repos/'' @ owner @ ''/'' @ repo @ ''/tarball/'' @ ref;
              tr2 = say (''[entrypoint] Owner: '' @ owner @ '', Repo: '' @ repo @ '', Ref: '' @ ref
                          @ '', Folder: '' @ folder) tr1;
              tr3 = say (''[entrypoint] Downloading from: '' @ tarball) tr2
          in
          and_then (must w MktempD tr3) (\<lambda>temp_dir tr4.
            case attempt w (CurlTarball tarball temp_dir) tr4 of (r5, tr5) \<Rightarrow>
            if fst r5 \<noteq> 0 then Exit 3 (say ''[fatal] Failed to download GitHub tarball'' tr5)
            else
              and_then (must w (FindDir temp_dir folder) tr5) (\<lambda>extracted tr6.
                if extracted = [] then
                  and_then
                    (must w (RmRf temp_dir)
                      (say (''[fatal] Folder '' @ folder @ '' not found in tarball'') tr6))
                    (\<lambda>_ tr7. Exit 3 tr7)
                else
                  case attempt w (MvContents extracted ''/work/src/'') tr6 of (r7, tr7) \<Rightarrow>
                  if fst r7 \<noteq> 0 then
                    and_then
                      (must w (RmRf temp_dir) (say ''[fatal] Failed to move extracted files'' tr7))
                      (\<lambda>_ tr8. Exit 3 tr8)
                  else
                    and_then (must w (RmRf temp_dir) tr7) (\<lambda>_ tr8.
                    and_then
                      (must w (LsLa ''/work/src'')
                        (say ''[entrypoint] Contents of /work/src:''
                          (say (''[entrypoint] Successfully extracted '' @ folder @ '' from GitHub'')
                            tr8)))
                      (\<lambda>_ tr9. Next (folder, []) tr9)))))"

text \<open>\<open>cd /work\<close>, \<open>mkdir -p src\<close>, \<open>FOLDER=""\<close> and the \<open>case\<close> on the URL; the first
  pattern that matches decides. The result is FOLDER and CODE_CHECKSUM_SHA256, the latter
  as \<open>"${CODE_CHECKSUM_SHA256:-}"\<close> reads it.\<close>

definition fetch_code :: "world \<Rightarrow> string \<Rightarrow> string \<Rightarrow> cmd list \<Rightarrow> (string \<times> string) flow" where
  "fetch_code w url checksum tr0 =
     and_then (must w (Cd ''/work'') tr0) (\<lambda>_ tr1.
     and_then (must w (MkdirP ''src'') tr1) (\<lambda>_ tr2.
       if glob_match (glob ''*github.com/*/tree/*'') url then github_tree w url tr2
       else if glob_match (glob ''*.zip'') url then
         and_then (must w (Curl url ''bundle.zip'') tr2) (\<lambda>_ tr3. Next ([], checksum) tr3)
       else if glob_match (glob ''*.tgz'') url \<or> glob_match (glob ''*.tar.gz'') url then
         and_then (must w (Curl url ''bundle.tgz'') tr2) (\<lambda>_ tr3. Next ([], checksum) tr3)
       else if glob_match (glob ''*.git'') url \<or> glob_match (glob ''*.git*'') url then
         and_then (must w (GitClone url ''src'') tr2) (\<lambda>_ tr3. Next ([], checksum) tr3)
       else
         and_then
           (must w (Curl url ''bundle.zip'')
             (say ''[warning] Unknown file extension, assuming zip'' tr2))
           (\<lambda>_ tr3. Next ([], checksum) tr3)))"

subsection \<open>Lines 94 to 118: checksum, extraction, working directory\<close>

definition verify_checksum :: "world \<Rightarrow> string \<Rightarrow> cmd list \<Rightarrow> unit flow" where
  "verify_checksum w checksum tr0 =
     (if checksum \<noteq> [] then
        case attempt w (TestF ''bundle.zip'') tr0 of (r1, tr1) \<Rightarrow>
        if fst r1 = 0 then
          and_then (must w (Sha256sumCheck checksum ''bundle.zip'') tr1) (\<lambda>_ tr2. Next () tr2)
        else
          case attempt w (TestF ''bundle.tgz'') tr1 of (r2, tr2) \<Rightarrow>
          if fst r2 = 0 then
            and_then (must w (Sha256sumCheck checksum ''bundle.tgz'') tr2) (\<lambda>_ tr3. Next () tr3)
          else Next () tr2
      else Next () tr0)"

definition extract_zip :: "world \<Rightarrow> cmd list \<Rightarrow> unit flow" where
  "extract_zip w tr0 =
     (case attempt w (TestF ''bundle.zip'') tr0 of (r1, tr1) \<Rightarrow>
      if fst r1 = 0 then
        case attempt w (Unzip ''bundle.zip'' ''src'') tr1 of (r2, tr2) \<Rightarrow>
        if fst r2 \<noteq> 0 then Exit 3 (say ''unzip failed'' tr2) else Next () tr2
      else Next () tr1)"

definition extract_tgz :: "world \<Rightarrow> cmd list \<Rightarrow> unit flow" where
  "extract_tgz w tr0 =
     (case attempt w (TestF ''bundle.tgz'') tr0 of (r1, tr1) \<Rightarrow>
      if fst r1 = 0 then
        case attempt w (TarX ''bundle.tgz'' ''src'' True) tr1 of (r2, tr2) \<Rightarrow>
        if fst r2 \<noteq> 0 then
          and_then (must w (TarX ''bundle.tgz'' ''src'' False) tr2) (\<lambda>_ tr3. Next () tr3)
        else Next () tr2
      else Next () tr1)"

text \<open>\<open>echo "... $(pwd)"\<close> runs \<open>pwd\<close> for its output only; the status that counts is
  \<open>echo\<close>'s.\<close>

definition enter_single_dir :: "world \<Rightarrow> string \<Rightarrow> cmd list \<Rightarrow> unit flow" where
  "enter_single_dir w folder tr0 =
     (if folder \<noteq> [] then Next () tr0
      else
        case attempt w TestSingleEntry tr0 of (r1, tr1) \<Rightarrow>
        if fst r1 \<noteq> 0 then Next () tr1
        else
          case attempt w TestFirstEntryIsDir tr1 of (r2, tr2) \<Rightarrow>
          if fst r2 \<noteq> 0 then Next () tr2
          else
            and_then (must w CdFirstEntry (say ''[entrypoint] Found single directory, entering it...'' tr2))
              (\<lambda>_ tr3.
                case attempt w Pwd tr3 of (r4, tr4) \<Rightarrow>
                and_then (must w (LsLa []) (say (''[entrypoint] New directory: '' @ snd r4) tr4))
                  (\<lambda>_ tr5. Next () tr5)))"

definition enter_src :: "world \<Rightarrow> string \<Rightarrow> cmd list \<Rightarrow> unit flow" where
  "enter_src w folder tr0 =
     and_then (must w (Cd ''/work/src'') tr0) (\<lambda>_ tr1.
       case attempt w Pwd tr1 of (r2, tr2) \<Rightarrow>
       and_then
         (must w (LsLa [])
           (say ''[entrypoint] Directory contents:''
             (say (''[entrypoint] Current directory: '' @ snd r2) tr2)))
         (\<lambda>_ tr3. enter_single_dir w folder tr3))"

subsection \<open>Lines 120 to 181: installation and launch\<close>

text \<open>\<open>${VAR:=default}\<close>: the default when the variable is unset or empty.\<close>

definition or_default :: "string \<Rightarrow> string option \<Rightarrow> string" where
  "or_default d v = (case v of None \<Rightarrow> d | Some s \<Rightarrow> if s = [] then d else s)"

definition install :: "world \<Rightarrow> string option \<Rightarrow> cmd list \<Rightarrow> unit flow" where
  "install w install_cmd tr0 =
     (let c = or_default ''npm install'' install_cmd;
          tr1 = say (''[entrypoint] Running: '' @ c)
                  (say ''[entrypoint] Installing dependencies...'' tr0)
      in case attempt w (Bash c) tr1 of (r2, tr2) \<Rightarrow>
         if fst r2 \<noteq> 0 then Exit 4 (say ''[fatal] Install command failed'' tr2)
         else Next () (say ''[entrypoint] Installation complete!'' tr2))"

definition exit_file_of :: "string \<Rightarrow> string" where
  "exit_file_of session = ''/tmp/'' @ session @ ''_exit_code''"

text \<open>Line 130 expands \<open>${COMMAND}\<close> under \<open>set -u\<close>: unset, it ends the script with status
  1. Starting \<open>ttyd\<close> in the background has status 0.\<close>

definition launch :: "world \<Rightarrow> env \<Rightarrow> cmd list \<Rightarrow> unit flow" where
  "launch w e tr0 =
     (case COMMAND e of
        None \<Rightarrow> Exit 1 tr0
      | Some command \<Rightarrow>
          let session = or_default ''job'' (TMUX_SESSION e);
              socket = or_default ''/tmp/tmux/tmux.sock'' (TMUX_SOCKET e);
              port = or_default ''7681'' (TTYD_PORT e)
          in
          and_then
            (must w (MkdirP ''/tmp/tmux'')
              (say (''[entrypoint] Starting command in tmux session: '' @ command) tr0))
            (\<lambda>_ tr1.
          and_then (must w WriteTmuxConf tr1) (\<lambda>_ tr2.
          and_then
            (must w (TmuxNewSession socket session command (exit_file_of session))
              (say (''[entrypoint] Creating tmux session '' @ [CHR 0x27] @ session @ [CHR 0x27] @ ''...'') tr2))
            (\<lambda>_ tr3.
              Next ()
                (say ''[entrypoint] Connect via browser to see live terminal output''
                  (say (''[entrypoint] Launching ttyd on port '' @ port @ ''...'')
                    (say (''[entrypoint] Command started in tmux session '' @ [CHR 0x27] @ session
                           @ [CHR 0x27]) tr3))
                 @ [TtydStart port socket session])))))"

subsection \<open>Lines 183 to 209: waiting for the job\<close>

text \<open>The loop \<open>while tmux has-session; do sleep 2; done\<close>. It ends when \<open>has-session\<close>
  fails, and also when \<open>sleep\<close> fails (\<open>set -e\<close>); while the session lives it goes on, and
  then it has no result.\<close>

partial_function (option) monitor :: "world \<Rightarrow> string \<Rightarrow> string \<Rightarrow> cmd list \<Rightarrow> unit flow option" where
  "monitor w socket session tr =
     (if fst (sys w tr (TmuxHasSession socket session)) \<noteq> 0
      then Some (Next () (tr @ [TmuxHasSession socket session]))
      else if fst (sys w (tr @ [TmuxHasSession socket session]) (Sleep 2)) \<noteq> 0
      then Some (Exit (fst (sys w (tr @ [TmuxHasSession socket session]) (Sleep 2)))
                  (tr @ [TmuxHasSession socket session, Sleep 2]))
      else monitor w socket session (tr @ [TmuxHasSession socket session, Sleep 2]))"

declare monitor.simps [code]

text \<open>
  The argument of \<open>exit\<close>, as the shell reads it: white space, then an optional sign, then
  decimal digits, then spaces and tabs only; the number must fit a signed 64-bit integer;
  the status is the number modulo 256. For any other string \<open>exit\<close> reports that it needs a
  numeric argument (or prints its usage), and the status is 2. The argument \<open>--\<close> alone
  ends the options and leaves \<open>exit\<close> without a number: the status is then that of the
  command before, the \<open>echo\<close> of line 208, which is 0.
\<close>

definition is_space :: "char \<Rightarrow> bool" where
  "is_space c = ((of_char c :: nat) = 32 \<or> (9 \<le> (of_char c :: nat) \<and> (of_char c :: nat) \<le> 13))"

definition is_blank :: "char \<Rightarrow> bool" where
  "is_blank c = ((of_char c :: nat) = 32 \<or> (of_char c :: nat) = 9)"

definition is_digit :: "char \<Rightarrow> bool" where
  "is_digit c = (48 \<le> (of_char c :: nat) \<and> (of_char c :: nat) \<le> 57)"

definition digits_value :: "string \<Rightarrow> int" where
  "digits_value ds = foldl (\<lambda>acc c. 10 * acc + (int (of_char c) - 48)) 0 ds"

definition legal_number :: "string \<Rightarrow> int option" where
  "legal_number s =
     (let s1 = dropWhile is_space s;
          signed = (s1 \<noteq> [] \<and> (hd s1 = CHR ''-'' \<or> hd s1 = CHR ''+''));
          negative = (s1 \<noteq> [] \<and> hd s1 = CHR ''-'');
          s2 = (if signed then tl s1 else s1);
          ds = takeWhile is_digit s2;
          rest = dropWhile is_blank (dropWhile is_digit s2);
          v = (if negative then - digits_value ds else digits_value ds)
      in if ds = [] \<or> rest \<noteq> [] \<or> v < - (2 ^ 63) \<or> 2 ^ 63 - 1 < v then None else Some v)"

definition exit_status :: "string \<Rightarrow> nat" where
  "exit_status s =
     (if s = ''--'' then 0
      else case legal_number s of Some v \<Rightarrow> nat (v mod 256) | None \<Rightarrow> 2)"

text \<open>Lines 197 to 202: \<open>job_code\<close>. A \<open>cat\<close> that fails is taken to have printed
  nothing, so that the \<open>echo 1\<close> after it gives \<open>1\<close>.\<close>

definition collect_job_code :: "world \<Rightarrow> string \<Rightarrow> cmd list \<Rightarrow> string \<times> cmd list" where
  "collect_job_code w exit_file tr0 =
     (case attempt w (TestF exit_file) tr0 of (r1, tr1) \<Rightarrow>
      if fst r1 = 0 then
        case attempt w (Cat exit_file) tr1 of (r2, tr2) \<Rightarrow>
        let job_code = (if fst r2 = 0 then snd r2 else ''1'')
        in (job_code, say (''[entrypoint] Job exited with code: '' @ job_code) tr2)
      else (''0'', tr1))"

text \<open>Lines 183 to 209. The result is the exit status of the script with the commands it
  ran, or \<open>None\<close> when the script never ends. In the branch of \<open>EXIT_ON_JOB=false\<close> the
  \<open>wait\<close> is a command under \<open>set -e\<close>; after the loop it is guarded by \<open>|| true\<close>.\<close>

definition supervise :: "world \<Rightarrow> env \<Rightarrow> cmd list \<Rightarrow> (nat \<times> cmd list) option" where
  "supervise w e tr0 =
     (let session = or_default ''job'' (TMUX_SESSION e);
          socket = or_default ''/tmp/tmux/tmux.sock'' (TMUX_SOCKET e)
      in
      if or_default ''true'' (EXIT_ON_JOB e) = ''false'' then
        let tr1 = say ''[entrypoint] EXIT_ON_JOB=false, keeping container alive'' tr0 in
        case wait_ttyd w tr1 of
          None \<Rightarrow> None
        | Some st \<Rightarrow> if st \<noteq> 0 then Some (st, tr1 @ [WaitTtyd]) else Some (0, tr1 @ [WaitTtyd])
      else
        case monitor w socket session tr0 of
          None \<Rightarrow> None
        | Some (Exit st tr1) \<Rightarrow> Some (st, tr1)
        | Some (Next _ tr1) \<Rightarrow>
            (case collect_job_code w (exit_file_of session)
                    (say ''[entrypoint] Command finished, shutting down...'' tr1) of
               (job_code, tr2) \<Rightarrow>
                 (case attempt w KillTermTtyd tr2 of (r3, tr3) \<Rightarrow>
                    (case wait_ttyd w tr3 of
                       None \<Rightarrow> None
                     | Some st \<Rightarrow>
                         Some (exit_status job_code,
                               say (''[entrypoint] Container exiting with code: '' @ job_code)
                                 (tr3 @ [WaitTtyd]))))))"

subsection \<open>The whole script\<close>

text \<open>Everything before the wait: lines 4 to 181.\<close>

definition prepare :: "world \<Rightarrow> env \<Rightarrow> unit flow" where
  "prepare w e =
     and_then (check_inputs w e) (\<lambda>url tr1.
     and_then (fetch_code w url (or_default [] (CODE_CHECKSUM_SHA256 e)) tr1) (\<lambda>fc tr2.
     and_then (verify_checksum w (snd fc) tr2) (\<lambda>_ tr3.
     and_then (extract_zip w tr3) (\<lambda>_ tr4.
     and_then (extract_tgz w tr4) (\<lambda>_ tr5.
     and_then (enter_src w (fst fc) tr5) (\<lambda>_ tr6.
     and_then (install w (INSTALL_CMD e) tr6) (\<lambda>_ tr7.
       launch w e tr7)))))))"

definition entrypoint :: "world \<Rightarrow> env \<Rightarrow> (nat \<times> cmd list) option" where
  "entrypoint w e =
     (case prepare w e of
        Exit st tr \<Rightarrow> Some (st, tr)
      | Next _ tr \<Rightarrow> supervise w e tr)"

text \<open>The commands that fetch, install or start code, for the claims that say that a
  rejection comes before any of them; and the checksum command.\<close>

fun is_echo :: "cmd \<Rightarrow> bool" where
  "is_echo (Echo s) = True"
| "is_echo c = False"

fun is_sha256sum :: "cmd \<Rightarrow> bool" where
  "is_sha256sum (Sha256sumCheck s f) = True"
| "is_sha256sum c = False"

text \<open>The four shapes of a code URL, as the patterns of the \<open>case\<close> statement read them.\<close>

definition github_tree_shape :: "string \<Rightarrow> bool" where
  "github_tree_shape url = glob_match (glob ''*github.com/*/tree/*'') url"

definition zip_shape :: "string \<Rightarrow> bool" where
  "zip_shape url = glob_match (glob ''*.zip'') url"

definition tgz_shape :: "string \<Rightarrow> bool" where
  "tgz_shape url = (glob_match (glob ''*.tgz'') url \<or> glob_match (glob ''*.tar.gz'') url)"

definition git_shape :: "string \<Rightarrow> bool" where
  "git_shape url = (glob_match (glob ''*.git'') url \<or> glob_match (glob ''*.git*'') url)"


subsection \<open>Notions for the statements about the script\<close>

text \<open>A value of COMMAND or INSTALL_CMD that lines 23 to 28 let through: unset, empty, or
  accepted by \<open>validate_command\<close>.\<close>

definition acceptable :: "world \<Rightarrow> string option \<Rightarrow> bool" where
  "acceptable w v =
     (case v of None \<Rightarrow> True | Some c \<Rightarrow> c = [] \<or> fst (validate_command w c) = 0)"

text \<open>\<open>extends P tr tr'\<close>: the commands \<open>tr'\<close> are the commands \<open>tr\<close> followed by commands
  that all satisfy \<open>P\<close>; \<open>adds P tr f\<close> says so of the commands of a part of the script.\<close>

definition extends :: "(cmd \<Rightarrow> bool) \<Rightarrow> cmd list \<Rightarrow> cmd list \<Rightarrow> bool" where
  "extends P tr tr' = (take (length tr) tr' = tr \<and> list_all P (drop (length tr) tr'))"

definition adds :: "(cmd \<Rightarrow> bool) \<Rightarrow> cmd list \<Rightarrow> 'a flow \<Rightarrow> bool" where
  "adds P tr f = extends P tr (issued f)"

text \<open>The commands of \<open>k\<close> rounds of the loop of line 191, and the worlds in which the tmux
  session is found ended at the poll after \<open>k\<close> rounds, every \<open>sleep\<close> before having
  succeeded.\<close>

fun polls :: "string \<Rightarrow> string \<Rightarrow> nat \<Rightarrow> cmd list" where
  "polls socket session 0 = []"
| "polls socket session (Suc k) =
     [TmuxHasSession socket session, Sleep 2] @ polls socket session k"

fun session_ends :: "world \<Rightarrow> string \<Rightarrow> string \<Rightarrow> cmd list \<Rightarrow> nat \<Rightarrow> bool" where
  "session_ends w socket session tr 0 = (fst (sys w tr (TmuxHasSession socket session)) \<noteq> 0)"
| "session_ends w socket session tr (Suc k) =
     (fst (sys w tr (TmuxHasSession socket session)) = 0
      \<and> fst (sys w (tr @ [TmuxHasSession socket session]) (Sleep 2)) = 0
      \<and> session_ends w socket session (tr @ [TmuxHasSession socket session, Sleep 2]) k)"

text \<open>A world and an environment to run the script in. In \<open>world_ok\<close> every command
  succeeds, except that there is no \<open>bundle.tgz\<close> and that the tmux session has ended at
  the first poll; \<open>mktemp\<close>, \<open>find\<close> and \<open>pwd\<close> print a path, the exit-code file holds
  \<open>exit_file_content\<close>, and the wait for \<open>ttyd\<close> returns \<open>ttyd_status\<close>. Its locale is the C
  locale: a character is a byte.\<close>

definition world_ok :: "string \<Rightarrow> nat \<Rightarrow> world" where
  "world_ok exit_file_content ttyd_status =
     \<lparr> sys = (\<lambda>tr c.
         case c of
           TmuxHasSession socket session \<Rightarrow> (1, [])
         | TestF f \<Rightarrow> (if f = ''bundle.tgz'' then 1 else 0, [])
         | Cat f \<Rightarrow> (0, exit_file_content)
         | MktempD \<Rightarrow> (0, ''/tmp/tmp.1'')
         | FindDir dir name \<Rightarrow> (0, dir @ ''/repo/'' @ name)
         | Pwd \<Rightarrow> (0, ''/work/src'')
         | _ \<Rightarrow> (0, [])),
       wait_ttyd = (\<lambda>tr. Some ttyd_status),
       char_count = length \<rparr>"

text \<open>\<open>world_after n\<close> is \<open>world_ok\<close> with a job that runs longer: the tmux session is
  there until the loop has slept \<open>n\<close> times.\<close>

definition world_after :: "nat \<Rightarrow> string \<Rightarrow> nat \<Rightarrow> world" where
  "world_after n exit_file_content ttyd_status =
     \<lparr> sys = (\<lambda>tr c.
         case c of
           TmuxHasSession socket session \<Rightarrow> (if count_list tr (Sleep 2) < n then 0 else 1, [])
         | _ \<Rightarrow> sys (world_ok exit_file_content ttyd_status) tr c),
       wait_ttyd = wait_ttyd (world_ok exit_file_content ttyd_status),
       char_count = char_count (world_ok exit_file_content ttyd_status) \<rparr>"

text \<open>The session and the socket of the job, and the commands run when the loop of line
  191 has ended after \<open>k\<close> rounds and line 195 has printed its message.\<close>

definition job_session :: "env \<Rightarrow> string" where
  "job_session e = or_default ''job'' (TMUX_SESSION e)"

definition job_socket :: "env \<Rightarrow> string" where
  "job_socket e = or_default ''/tmp/tmux/tmux.sock'' (TMUX_SOCKET e)"

definition finished_trace :: "env \<Rightarrow> cmd list \<Rightarrow> nat \<Rightarrow> cmd list" where
  "finished_trace e tr k =
     say ''[entrypoint] Command finished, shutting down...''
       (tr @ polls (job_socket e) (job_session e) k
           @ [TmuxHasSession (job_socket e) (job_session e)])"




definition env_of :: "string \<Rightarrow> string \<Rightarrow> env" where
  "env_of url command =
     \<lparr> CODE_URL = Some url, COMMAND = Some command, INSTALL_CMD = None,
       CODE_CHECKSUM_SHA256 = None, EXIT_ON_JOB = None, TMUX_SESSION = None,
       TMUX_SOCKET = None, TTYD_PORT = None \<rparr>"

subsection \<open>Properties of the pool module\<close>

lemma pool_step_destroy_count:
  "count_list (dbCalls (pool_step st ev)) Destroy
     = count_list (dbCalls st) Destroy + (if is_Close ev \<and> \<not> isPoolClosed st then 1 else 0)"
  by (cases ev)
     (simp_all add: on_createSuccess_def on_createFail_def on_recoveryTimer_def
        on_destroySuccess_def checkDatabaseHealth_def closeDatabasePool_def)

lemma pool_step_closed:
  "isPoolClosed (pool_step st ev) = (isPoolClosed st \<or> is_Close ev)"
  by (cases ev)
     (simp_all add: on_createSuccess_def on_createFail_def on_recoveryTimer_def
        on_destroySuccess_def checkDatabaseHealth_def closeDatabasePool_def)

lemma foldl_pool_step_closed:
  "isPoolClosed (foldl pool_step st evs) = (isPoolClosed st \<or> (\<exists>ev \<in> set evs. is_Close ev))"
  by (induction evs arbitrary: st) (auto simp: pool_step_closed)

lemma foldl_pool_step_destroy:
  "count_list (dbCalls (foldl pool_step st evs)) Destroy
     = count_list (dbCalls st) Destroy
       + (if \<not> isPoolClosed st \<and> (\<exists>ev \<in> set evs. is_Close ev) then 1 else 0)"
proof (induction evs arbitrary: st)
  case Nil
  show ?case by simp
next
  case (Cons ev evs)
  show ?case
    by (simp add: Cons.IH pool_step_destroy_count pool_step_closed)
qed

text \<open>
  Claim C6, as amended. \<open>checkDatabaseHealth\<close> answers true exactly when the pool is marked
  healthy and the \<open>SELECT 1\<close> round trip resolves with exactly one row. It answers false when
  the pool is marked unhealthy (and then it does not issue the query at all), when the
  query rejects, and when the result has a number of rows other than one.
\<close>

theorem checkDatabaseHealth_iff:
  "fst (checkDatabaseHealth st q) = (isPoolHealthy st \<and> select1_succeeds q)
   \<and> dbCalls (snd (checkDatabaseHealth st q))
       = (if isPoolHealthy st then dbCalls st @ [Raw ''SELECT 1''] else dbCalls st)
   \<and> isPoolHealthy (snd (checkDatabaseHealth st q)) = isPoolHealthy st
   \<and> isPoolClosed (snd (checkDatabaseHealth st q)) = isPoolClosed st"
  by (cases q) (simp_all add: checkDatabaseHealth_def)

theorem checkDatabaseHealth_iff_witness:
  "fst (checkDatabaseHealth pool_init (Resolved [()])) = True
   \<and> fst (checkDatabaseHealth (on_createFail pool_init) (Resolved [()])) = False
   \<and> dbCalls (snd (checkDatabaseHealth (on_createFail pool_init) (Resolved [()]))) = []
   \<and> fst (checkDatabaseHealth pool_init (Rejected :: unit list promise)) = False
   \<and> fst (checkDatabaseHealth pool_init (Resolved [(), ()])) = False"
  using checkDatabaseHealth_iff [of pool_init "Resolved [()]"]
    checkDatabaseHealth_iff [of "on_createFail pool_init" "Resolved [()]"]
    checkDatabaseHealth_iff [of pool_init "Rejected :: unit list promise"]
    checkDatabaseHealth_iff [of pool_init "Resolved [(), ()]"]
  by (simp add: pool_init_def on_createFail_def)

text \<open>
  Claim C6 as it is written fails: after a \<open>createFail\<close> event of the pool the query would
  succeed with one row, and the health check still answers false.
\<close>

theorem checkDatabaseHealth_counterexample:
  "select1_succeeds (Resolved [()])
   \<and> \<not> fst (checkDatabaseHealth (pool_run [CreateFail]) (Resolved [()]))"
  by (simp add: pool_run_def pool_init_def on_createFail_def checkDatabaseHealth_def)

text \<open>
  Claim C7. Whatever happens to the module, in whatever order, \<open>db.destroy\<close> is invoked at
  most once; and once \<open>closeDatabasePool\<close> has been called, every later call resolves
  (no error) and leaves the module's state and the pool untouched: no further call on
  \<open>db\<close> is made.
\<close>

theorem closeDatabasePool_idempotent:
  "count_list (dbCalls (pool_run evs)) Destroy \<le> 1
   \<and> ((\<exists>ev \<in> set evs. is_Close ev) \<longrightarrow>
        count_list (dbCalls (pool_run evs)) Destroy = 1
        \<and> closeDatabasePool (pool_run evs) d = (Resolved (), pool_run evs))"
proof -
  have cnt: "count_list (dbCalls (pool_run evs)) Destroy
               = (if \<exists>ev \<in> set evs. is_Close ev then 1 else 0)"
    unfolding pool_run_def by (simp add: foldl_pool_step_destroy pool_init_def)
  have closed: "isPoolClosed (pool_run evs) = (\<exists>ev \<in> set evs. is_Close ev)"
    unfolding pool_run_def by (simp add: foldl_pool_step_closed pool_init_def)
  show ?thesis
    using cnt closed by (simp add: closeDatabasePool_def)
qed

theorem closeDatabasePool_idempotent_witness:
  "dbCalls (pool_run [Close Rejected, HealthCheck Rejected, Close (Resolved ())])
     = [Destroy, Raw ''SELECT 1'']
   \<and> count_list (dbCalls (pool_run [Close Rejected, HealthCheck Rejected, Close (Resolved ())]))
        Destroy = 1
   \<and> closeDatabasePool (pool_run [Close Rejected, HealthCheck Rejected, Close (Resolved ())])
        Rejected
       = (Resolved (), pool_run [Close Rejected, HealthCheck Rejected, Close (Resolved ())])"
  using closeDatabasePool_idempotent
    [of "[Close Rejected, HealthCheck Rejected, Close (Resolved ())]" Rejected]
  by (simp add: pool_run_def pool_init_def closeDatabasePool_def checkDatabaseHealth_def)

subsection \<open>Properties of the Store schema\<close>

lemma field_new_row:
  "distinct (map colName cols) \<Longrightarrow> c \<in> set cols \<Longrightarrow>
   field (new_row cols ctx data) (colName c) = column_value ctx data c"
proof -
  assume d: "distinct (map colName cols)" and c: "c \<in> set cols"
  have "map_of (map (\<lambda>c. (colName c, column_value ctx data c)) cols) (colName c)
          = Some (column_value ctx data c)"
    using d c by (induction cols) (auto simp: image_iff)
  then show ?thesis by (simp add: field_def new_row_def)
qed

lemma insert_row_Inr:
  assumes "insert_row cols ctx rows data = Inr rows'"
  shows "rows' = rows @ [new_row cols ctx data]"
    and "\<not> (\<exists>c. c \<in> set cols \<and> violates_not_null (new_row cols ctx data) c)"
    and "\<not> (\<exists>c. c \<in> set cols \<and> violates_unique rows (new_row cols ctx data) c)"
  using assms unfolding insert_row_def
  by (auto split: option.splits simp: find_None_iff)

lemma insert_row_keeps_key:
  assumes names: "distinct (map colName cols)"
    and c: "c \<in> set cols" "colPrimary c \<or> (colUnique c \<and> colNotNull c)"
    and key: "key_column (colName c) rows"
    and ins: "insert_row cols ctx rows data = Inr rows'"
  shows "key_column (colName c) rows'"
proof -
  let ?r = "new_row cols ctx data"
  have nn: "\<not> violates_not_null ?r c" and nu: "\<not> violates_unique rows ?r c"
    using insert_row_Inr(2,3) [OF ins] c(1) by blast+
  have v: "field ?r (colName c) \<noteq> SqlNull"
    using nn c(2) by (auto simp: violates_not_null_def)
  have fresh: "field ?r (colName c) \<notin> (\<lambda>r'. field r' (colName c)) ` set rows"
    using nu c(2) v by (auto simp: violates_unique_def)
  show ?thesis
    using key v fresh unfolding insert_row_Inr(1) [OF ins] key_column_def by auto
qed

lemma insert_row_duplicate:
  assumes names: "distinct (map colName cols)"
    and c: "c \<in> set cols" "colPrimary c \<or> colUnique c"
    and v: "column_value ctx data c \<noteq> SqlNull"
    and dup: "column_value ctx data c \<in> (\<lambda>r. field r (colName c)) ` set rows"
  shows "\<exists>e. insert_row cols ctx rows data = Inl e"
proof -
  have "violates_unique rows (new_row cols ctx data) c"
    using c(2) v dup by (simp add: violates_unique_def field_new_row [OF names c(1)])
  then have "List.find (violates_unique rows (new_row cols ctx data)) cols \<noteq> None"
    using c(1) by (auto simp: find_None_iff)
  then show ?thesis
    unfolding insert_row_def by (auto split: option.splits)
qed

lemma names_token_jti: "distinct (map colName token_jti_table)"
  by (simp add: token_jti_table_def primary_def notNullable_def text_col_def timestamp_col_def)

lemma names_sessions: "distinct (map colName sessions_table)"
  by (simp add: sessions_table_def primary_def notNullable_def unique_def defaultTo_def
      text_col_def timestamp_col_def)

lemma insert_token:
 "insert_row token_jti_table ctx rows
         [(''jti'', SqlText j), (''session_id'', SqlText s), (''expires_at'', SqlTimestamp t)]
         = (if SqlText j \<in> (\<lambda>r. field r ''jti'') ` set rows then Inl (UniqueViolation ''jti'') else 
   Inr (rows @ [[(''jti'', SqlText j), (''session_id'', SqlText s), (''expires_at'', SqlTimestamp t)]]))"
  by (simp add: insert_row_def token_jti_table_def primary_def notNullable_def text_col_def timestamp_col_def
     new_row_def field_def column_value_def violates_not_null_def violates_unique_def)

lemma col_simps:
  "colName (primary c) = colName c" "colName (notNullable c) = colName c"
  "colName (unique c) = colName c" "colName (defaultTo d c) = colName c"
  "colName (text_col n) = n" "colName (timestamp_col n) = n"
  "colPrimary (primary c) = True" "colPrimary (notNullable c) = colPrimary c"
  "colPrimary (unique c) = colPrimary c" "colPrimary (defaultTo d c) = colPrimary c"
  "colPrimary (text_col n) = False" "colPrimary (timestamp_col n) = False"
  "colNotNull (primary c) = colNotNull c" "colNotNull (notNullable c) = True"
  "colNotNull (unique c) = colNotNull c" "colNotNull (defaultTo d c) = colNotNull c"
  "colNotNull (text_col n) = False" "colNotNull (timestamp_col n) = False"
  "colUnique (primary c) = colUnique c" "colUnique (notNullable c) = colUnique c"
  "colUnique (unique c) = True" "colUnique (defaultTo d c) = colUnique c"
  "colUnique (text_col n) = False" "colUnique (timestamp_col n) = False"
  "colDefault (primary c) = colDefault c" "colDefault (notNullable c) = colDefault c"
  "colDefault (unique c) = colDefault c" "colDefault (defaultTo d c) = d"
  "colDefault (text_col n) = NoDefault" "colDefault (timestamp_col n) = NoDefault"
  "colType (primary c) = colType c" "colType (notNullable c) = colType c"
  "colType (unique c) = colType c" "colType (defaultTo d c) = colType c"
  "colType (text_col n) = TText" "colType (timestamp_col n) = TTimestampTz"
  by (simp_all add: primary_def notNullable_def unique_def defaultTo_def text_col_def
      timestamp_col_def)

lemma insert_row_null:
  assumes names: "distinct (map colName cols)"
    and c: "c \<in> set cols" "colPrimary c \<or> colNotNull c"
    and v: "column_value ctx data c = SqlNull"
  shows "\<exists>e. insert_row cols ctx rows data = Inl e"
proof -
  have "violates_not_null (new_row cols ctx data) c"
    using c(2) v by (simp add: violates_not_null_def field_new_row [OF names c(1)])
  then have "List.find (violates_not_null (new_row cols ctx data)) cols \<noteq> None"
    using c(1) by (auto simp: find_None_iff)
  then show ?thesis
    unfolding insert_row_def by (auto split: option.splits)
qed

lemma insert_row_key_clash:
  assumes names: "distinct (map colName cols)"
    and c: "c \<in> set cols" "colPrimary c \<or> (colUnique c \<and> colNotNull c)"
    and dup: "column_value ctx data c \<in> (\<lambda>r. field r (colName c)) ` set rows"
  shows "\<exists>e. insert_row cols ctx rows data = Inl e"
proof (cases "column_value ctx data c = SqlNull")
  case True
  then show ?thesis using insert_row_null [OF names c(1)] c(2) by blast
next
  case False
  then show ?thesis using insert_row_duplicate [OF names c(1) _ False dup] c(2) by blast
qed

lemma foldl_db_step_invariant:
  assumes "P db"
    and "\<And>db q. P db \<Longrightarrow> q \<in> set qs \<Longrightarrow> P (db_step db q)"
  shows "P (foldl db_step db qs)"
  using assms by (induction qs arbitrary: db) auto

lemma jti_key_step:
  assumes "key_column ''jti'' (token_jti db)"
  shows "key_column ''jti'' (token_jti (snd (insert_into db ctx t data)))"
proof -
  have tok: "key_column ''jti'' rows"
    if "insert_row token_jti_table ctx (token_jti db) data = Inr rows" for rows
    using insert_row_keeps_key [OF names_token_jti, of "primary (text_col ''jti'')", OF _ _ _ that]
      assms by (simp add: token_jti_table_def col_simps)
  show ?thesis
    using assms tok by (auto simp: insert_into_def split: sum.splits)
qed

lemma jti_key_run: "key_column ''jti'' (token_jti (db_run qs))"
  unfolding db_run_def
proof (rule foldl_db_step_invariant [where P = "\<lambda>db. key_column ''jti'' (token_jti db)"])
  show "key_column ''jti'' (token_jti db_empty)"
    by (simp add: db_empty_def key_column_def)
next
  fix db :: database and q
  assume "key_column ''jti'' (token_jti db)"
  then show "key_column ''jti'' (token_jti (db_step db q))"
    by (cases q) (simp add: db_step_def jti_key_step)
qed

text \<open>
  Claim C1. \<open>jti\<close> is the primary key of \<open>token_jti\<close>: in every database that inserts can
  make, no two rows of the table have the same \<open>jti\<close> and none has NULL there; and an insert
  whose \<open>jti\<close> is that of a row already in the table fails and leaves the database as it
  was, the row already there included. For data that is otherwise valid the failure is the
  unique violation on \<open>jti\<close>.
\<close>

theorem token_jti_unique:
  "key_column ''jti'' (token_jti (db_run qs))
   \<and> (map_of data ''jti'' = Some v \<and> v \<in> (\<lambda>r. field r ''jti'') ` set (token_jti db)
        \<longrightarrow> (\<exists>e. insert_into db ctx ''token_jti'' data = (Some e, db)))
   \<and> (SqlText j \<in> (\<lambda>r. field r ''jti'') ` set (token_jti db)
        \<longrightarrow> insert_into db ctx ''token_jti''
              [(''jti'', SqlText j), (''session_id'', SqlText s), (''expires_at'', SqlTimestamp t)]
            = (Some (UniqueViolation ''jti''), db))"
proof (intro conjI impI)
  show "key_column ''jti'' (token_jti (db_run qs))" by (rule jti_key_run)
next
  assume a: "map_of data ''jti'' = Some v \<and> v \<in> (\<lambda>r. field r ''jti'') ` set (token_jti db)"
  have "\<exists>e. insert_row token_jti_table ctx (token_jti db) data = Inl e"
    by (rule insert_row_key_clash [OF names_token_jti, of "primary (text_col ''jti'')"])
       (use a in \<open>simp_all add: token_jti_table_def col_simps column_value_def\<close>)
  then show "\<exists>e. insert_into db ctx ''token_jti'' data = (Some e, db)"
    by (auto simp: insert_into_def)
next
  assume "SqlText j \<in> (\<lambda>r. field r ''jti'') ` set (token_jti db)"
  then show "insert_into db ctx ''token_jti''
              [(''jti'', SqlText j), (''session_id'', SqlText s), (''expires_at'', SqlTimestamp t)]
            = (Some (UniqueViolation ''jti''), db)"
    by (simp add: insert_into_def insert_token)
qed

lemmas schema_defs = sessions_table_def token_jti_table_def primary_def notNullable_def
  unique_def defaultTo_def text_col_def timestamp_col_def

lemmas insert_defs = insert_into_def insert_row_def new_row_def field_def column_value_def
  violates_not_null_def violates_unique_def

lemmas run_defs = db_run_def db_step_def db_empty_def

lemma db_run_one_token:
  "db_run
      [(ctx, ''token_jti'',
         [(''jti'', SqlText j), (''session_id'', SqlText s), (''expires_at'', SqlTimestamp t)])]
   = \<lparr> sessions = [],
       token_jti =
         [[(''jti'', SqlText j), (''session_id'', SqlText s), (''expires_at'', SqlTimestamp t)]] \<rparr>"
  by (simp add: run_defs insert_into_def insert_token)

theorem token_jti_unique_witness:
  "insert_into
     (db_run
       [(\<lparr>uuid = ''u1'', now = 10\<rparr>, ''token_jti'',
          [(''jti'', SqlText ''t1''), (''session_id'', SqlText ''s1''),
           (''expires_at'', SqlTimestamp 300)])])
     \<lparr>uuid = ''u2'', now = 20\<rparr> ''token_jti''
     [(''jti'', SqlText ''t1''), (''session_id'', SqlText ''s2''), (''expires_at'', SqlTimestamp 400)]
   = (Some (UniqueViolation ''jti''),
      db_run
       [(\<lparr>uuid = ''u1'', now = 10\<rparr>, ''token_jti'',
          [(''jti'', SqlText ''t1''), (''session_id'', SqlText ''s1''),
           (''expires_at'', SqlTimestamp 300)])])"
proof -
  let ?db = "db_run
       [(\<lparr>uuid = ''u1'', now = 10\<rparr>, ''token_jti'',
          [(''jti'', SqlText ''t1''), (''session_id'', SqlText ''s1''),
           (''expires_at'', SqlTimestamp 300)])]"
  have dup: "SqlText ''t1'' \<in> (\<lambda>r. field r ''jti'') ` set (token_jti ?db)"
    unfolding db_run_one_token by (simp add: field_def)
  from token_jti_unique [where db = ?db and ctx = "\<lparr>uuid = ''u2'', now = 20\<rparr>"
      and qs = "[]" and data = "[]" and v = SqlNull and j = "''t1''" and s = "''s2''" and t = 400]
    dup
  show ?thesis by blast
qed

lemma session_id_key_step:
  assumes "key_column ''session_id'' (sessions db)"
  shows "key_column ''session_id'' (sessions (snd (insert_into db ctx t data)))"
proof -
  have ses: "key_column ''session_id'' rows"
    if "insert_row sessions_table ctx (sessions db) data = Inr rows" for rows
    using insert_row_keeps_key [OF names_sessions,
        of "defaultTo UuidGenerateV4 (primary (text_col ''session_id''))", OF _ _ _ that]
      assms by (simp add: sessions_table_def col_simps)
  show ?thesis
    using assms ses by (auto simp: insert_into_def split: sum.splits)
qed

lemma job_name_key_step:
  assumes "key_column ''job_name'' (sessions db)"
  shows "key_column ''job_name'' (sessions (snd (insert_into db ctx t data)))"
proof -
  have ses: "key_column ''job_name'' rows"
    if "insert_row sessions_table ctx (sessions db) data = Inr rows" for rows
    using insert_row_keeps_key [OF names_sessions,
        of "unique (notNullable (text_col ''job_name''))", OF _ _ _ that]
      assms by (simp add: sessions_table_def col_simps)
  show ?thesis
    using assms ses by (auto simp: insert_into_def split: sum.splits)
qed

lemma sessions_keys_run:
  "key_column ''session_id'' (sessions (db_run qs)) \<and> key_column ''job_name'' (sessions (db_run qs))"
  unfolding db_run_def
proof (rule foldl_db_step_invariant
    [where P = "\<lambda>db. key_column ''session_id'' (sessions db) \<and> key_column ''job_name'' (sessions db)"])
  show "key_column ''session_id'' (sessions db_empty) \<and> key_column ''job_name'' (sessions db_empty)"
    by (simp add: db_empty_def key_column_def)
next
  fix db :: database and q
  assume "key_column ''session_id'' (sessions db) \<and> key_column ''job_name'' (sessions db)"
  then show "key_column ''session_id'' (sessions (db_step db q))
             \<and> key_column ''job_name'' (sessions (db_step db q))"
    by (cases q) (simp add: db_step_def session_id_key_step job_name_key_step)
qed

lemma insert_session:
  "insert_row sessions_table ctx rows
     [(''session_id'', SqlText i), (''owner_user_id'', SqlText ow), (''job_name'', SqlText n),
      (''expires_at'', SqlTimestamp t)]
   = (if SqlText i \<in> (\<lambda>r. field r ''session_id'') ` set rows
      then Inl (UniqueViolation ''session_id'')
      else if SqlText n \<in> (\<lambda>r. field r ''job_name'') ` set rows
      then Inl (UniqueViolation ''job_name'')
      else Inr (rows @ [[(''session_id'', SqlText i), (''owner_user_id'', SqlText ow),
                         (''job_name'', SqlText n), (''pod_name'', SqlNull), (''pod_ip'', SqlNull),
                         (''created_at'', SqlTimestamp (now ctx)), (''expires_at'', SqlTimestamp t)]]))"
  by (simp add: insert_row_def schema_defs new_row_def field_def column_value_def
      violates_not_null_def violates_unique_def)

text \<open>
  Claim C2. \<open>session_id\<close> is the primary key of \<open>sessions\<close> and \<open>job_name\<close> is unique and not
  null: in every database that inserts can make, no two rows have the same \<open>session_id\<close>
  and no two the same \<open>job_name\<close>; an insert whose \<open>session_id\<close> (given, or generated by
  the default) or whose \<open>job_name\<close> is that of a row already there fails and leaves the
  database as it was.
\<close>

theorem sessions_unique:
  "key_column ''session_id'' (sessions (db_run qs))
   \<and> key_column ''job_name'' (sessions (db_run qs))
   \<and> ((case map_of data ''session_id'' of Some v \<Rightarrow> v | None \<Rightarrow> SqlText (uuid ctx))
          \<in> (\<lambda>r. field r ''session_id'') ` set (sessions db)
        \<longrightarrow> (\<exists>e. insert_into db ctx ''sessions'' data = (Some e, db)))
   \<and> (map_of data ''job_name'' = Some v \<and> v \<in> (\<lambda>r. field r ''job_name'') ` set (sessions db)
        \<longrightarrow> (\<exists>e. insert_into db ctx ''sessions'' data = (Some e, db)))
   \<and> (SqlText i \<in> (\<lambda>r. field r ''session_id'') ` set (sessions db)
        \<longrightarrow> insert_into db ctx ''sessions''
              [(''session_id'', SqlText i), (''owner_user_id'', SqlText ow),
               (''job_name'', SqlText n), (''expires_at'', SqlTimestamp t)]
            = (Some (UniqueViolation ''session_id''), db))
   \<and> (SqlText i \<notin> (\<lambda>r. field r ''session_id'') ` set (sessions db)
        \<and> SqlText n \<in> (\<lambda>r. field r ''job_name'') ` set (sessions db)
        \<longrightarrow> insert_into db ctx ''sessions''
              [(''session_id'', SqlText i), (''owner_user_id'', SqlText ow),
               (''job_name'', SqlText n), (''expires_at'', SqlTimestamp t)]
            = (Some (UniqueViolation ''job_name''), db))"
proof (intro conjI impI)
  show "key_column ''session_id'' (sessions (db_run qs))"
    and "key_column ''job_name'' (sessions (db_run qs))"
    using sessions_keys_run by blast+
next
  assume a: "(case map_of data ''session_id'' of Some v \<Rightarrow> v | None \<Rightarrow> SqlText (uuid ctx))
          \<in> (\<lambda>r. field r ''session_id'') ` set (sessions db)"
  have "\<exists>e. insert_row sessions_table ctx (sessions db) data = Inl e"
    by (rule insert_row_key_clash [OF names_sessions,
          of "defaultTo UuidGenerateV4 (primary (text_col ''session_id''))"])
       (use a in \<open>simp_all add: sessions_table_def col_simps column_value_def
          split: option.splits\<close>)
  then show "\<exists>e. insert_into db ctx ''sessions'' data = (Some e, db)"
    by (auto simp: insert_into_def)
next
  assume a: "map_of data ''job_name'' = Some v \<and> v \<in> (\<lambda>r. field r ''job_name'') ` set (sessions db)"
  have "\<exists>e. insert_row sessions_table ctx (sessions db) data = Inl e"
    by (rule insert_row_key_clash [OF names_sessions,
          of "unique (notNullable (text_col ''job_name''))"])
       (use a in \<open>simp_all add: sessions_table_def col_simps column_value_def
          split: option.splits\<close>)
  then show "\<exists>e. insert_into db ctx ''sessions'' data = (Some e, db)"
    by (auto simp: insert_into_def)
next
  assume "SqlText i \<in> (\<lambda>r. field r ''session_id'') ` set (sessions db)"
  then show "insert_into db ctx ''sessions''
              [(''session_id'', SqlText i), (''owner_user_id'', SqlText ow),
               (''job_name'', SqlText n), (''expires_at'', SqlTimestamp t)]
            = (Some (UniqueViolation ''session_id''), db)"
    by (simp add: insert_into_def insert_session)
next
  assume "SqlText i \<notin> (\<lambda>r. field r ''session_id'') ` set (sessions db)
        \<and> SqlText n \<in> (\<lambda>r. field r ''job_name'') ` set (sessions db)"
  then show "insert_into db ctx ''sessions''
              [(''session_id'', SqlText i), (''owner_user_id'', SqlText ow),
               (''job_name'', SqlText n), (''expires_at'', SqlTimestamp t)]
            = (Some (UniqueViolation ''job_name''), db)"
    by (simp add: insert_into_def insert_session)
qed

lemma db_run_one_session:
  "db_run
      [(ctx, ''sessions'',
         [(''owner_user_id'', SqlText ow), (''job_name'', SqlText n),
          (''expires_at'', SqlTimestamp t)])]
   = \<lparr> sessions =
         [[(''session_id'', SqlText (uuid ctx)), (''owner_user_id'', SqlText ow),
           (''job_name'', SqlText n), (''pod_name'', SqlNull), (''pod_ip'', SqlNull),
           (''created_at'', SqlTimestamp (now ctx)), (''expires_at'', SqlTimestamp t)]],
       token_jti = [] \<rparr>"
  by (simp add: run_defs insert_defs schema_defs)

theorem sessions_unique_witness:
  "insert_into
     (db_run
       [(\<lparr>uuid = ''u1'', now = 10\<rparr>, ''sessions'',
          [(''owner_user_id'', SqlText ''o1''), (''job_name'', SqlText ''j1''),
           (''expires_at'', SqlTimestamp 600)])])
     \<lparr>uuid = ''u2'', now = 20\<rparr> ''sessions''
     [(''session_id'', SqlText ''u1''), (''owner_user_id'', SqlText ''o2''),
      (''job_name'', SqlText ''j2''), (''expires_at'', SqlTimestamp 700)]
   = (Some (UniqueViolation ''session_id''),
      db_run
       [(\<lparr>uuid = ''u1'', now = 10\<rparr>, ''sessions'',
          [(''owner_user_id'', SqlText ''o1''), (''job_name'', SqlText ''j1''),
           (''expires_at'', SqlTimestamp 600)])])
   \<and> insert_into
        (db_run
          [(\<lparr>uuid = ''u1'', now = 10\<rparr>, ''sessions'',
             [(''owner_user_id'', SqlText ''o1''), (''job_name'', SqlText ''j1''),
              (''expires_at'', SqlTimestamp 600)])])
        \<lparr>uuid = ''u2'', now = 20\<rparr> ''sessions''
        [(''session_id'', SqlText ''u3''), (''owner_user_id'', SqlText ''o2''),
         (''job_name'', SqlText ''j1''), (''expires_at'', SqlTimestamp 700)]
      = (Some (UniqueViolation ''job_name''),
         db_run
          [(\<lparr>uuid = ''u1'', now = 10\<rparr>, ''sessions'',
             [(''owner_user_id'', SqlText ''o1''), (''job_name'', SqlText ''j1''),
              (''expires_at'', SqlTimestamp 600)])])"
proof -
  let ?db = "db_run
       [(\<lparr>uuid = ''u1'', now = 10\<rparr>, ''sessions'',
          [(''owner_user_id'', SqlText ''o1''), (''job_name'', SqlText ''j1''),
           (''expires_at'', SqlTimestamp 600)])]"
  have ids: "SqlText ''u1'' \<in> (\<lambda>r. field r ''session_id'') ` set (sessions ?db)"
    and ids': "SqlText ''u3'' \<notin> (\<lambda>r. field r ''session_id'') ` set (sessions ?db)"
    and names: "SqlText ''j1'' \<in> (\<lambda>r. field r ''job_name'') ` set (sessions ?db)"
    unfolding db_run_one_session by (simp_all add: field_def)
  note u = sessions_unique [where db = ?db and ctx = "\<lparr>uuid = ''u2'', now = 20\<rparr>"
      and qs = "[]" and data = "[]" and v = SqlNull and ow = "''o2''" and t = 700]
  from u [where i = "''u1''" and n = "''j2''"] ids
  have 1: "insert_into ?db \<lparr>uuid = ''u2'', now = 20\<rparr> ''sessions''
     [(''session_id'', SqlText ''u1''), (''owner_user_id'', SqlText ''o2''),
      (''job_name'', SqlText ''j2''), (''expires_at'', SqlTimestamp 700)]
   = (Some (UniqueViolation ''session_id''), ?db)"
    by blast
  from u [where i = "''u3''" and n = "''j1''"] ids' names
  have 2: "insert_into ?db \<lparr>uuid = ''u2'', now = 20\<rparr> ''sessions''
     [(''session_id'', SqlText ''u3''), (''owner_user_id'', SqlText ''o2''),
      (''job_name'', SqlText ''j1''), (''expires_at'', SqlTimestamp 700)]
   = (Some (UniqueViolation ''job_name''), ?db)"
    by blast
  show ?thesis using 1 2 by (rule conjI)
qed

text \<open>
  Claim C8 as it is written fails: the schema has no constraint between the two
  timestamps, and an insert at time 100 with \<open>expires_at = 50\<close> succeeds.
\<close>

theorem sessions_expiry_counterexample:
  "insert_into db_empty \<lparr>uuid = ''u1'', now = 100\<rparr> ''sessions''
     [(''owner_user_id'', SqlText ''o1''), (''job_name'', SqlText ''j1''),
      (''expires_at'', SqlTimestamp 50)]
   = (None,
      \<lparr> sessions =
          [[(''session_id'', SqlText ''u1''), (''owner_user_id'', SqlText ''o1''),
            (''job_name'', SqlText ''j1''), (''pod_name'', SqlNull), (''pod_ip'', SqlNull),
            (''created_at'', SqlTimestamp 100), (''expires_at'', SqlTimestamp 50)]],
        token_jti = [] \<rparr>)
   \<and> \<not> expires_after_created
        [(''session_id'', SqlText ''u1''), (''owner_user_id'', SqlText ''o1''),
         (''job_name'', SqlText ''j1''), (''pod_name'', SqlNull), (''pod_ip'', SqlNull),
         (''created_at'', SqlTimestamp 100), (''expires_at'', SqlTimestamp 50)]"
  by (simp add: run_defs insert_defs schema_defs expires_after_created_def)

lemma ttl_row:
  assumes "ttl_insert ctx data"
  shows "expires_after_created (new_row sessions_table ctx data)"
proof -
  from assms obtain e where e: "map_of data ''expires_at'' = Some (SqlTimestamp e)" "now ctx < e"
    and c: "map_of data ''created_at'' = None"
    by (auto simp: ttl_insert_def split: option.splits sql_value.splits)
  have "field (new_row sessions_table ctx data)
          (colName (defaultTo FnNow (timestamp_col ''created_at'')))
        = column_value ctx data (defaultTo FnNow (timestamp_col ''created_at''))"
    by (rule field_new_row [OF names_sessions]) (simp add: sessions_table_def)
  then have 1: "field (new_row sessions_table ctx data) ''created_at'' = SqlTimestamp (now ctx)"
    using c by (simp add: col_simps column_value_def)
  have "field (new_row sessions_table ctx data)
          (colName (notNullable (timestamp_col ''expires_at'')))
        = column_value ctx data (notNullable (timestamp_col ''expires_at''))"
    by (rule field_new_row [OF names_sessions]) (simp add: sessions_table_def)
  then have 2: "field (new_row sessions_table ctx data) ''expires_at'' = SqlTimestamp e"
    using e by (simp add: col_simps column_value_def)
  show ?thesis using 1 2 e(2) by (simp add: expires_after_created_def)
qed

lemma expiry_step:
  assumes "\<forall>r \<in> set (sessions db). expires_after_created r"
    and "t = ''sessions'' \<longrightarrow> ttl_insert ctx data"
  shows "\<forall>r \<in> set (sessions (snd (insert_into db ctx t data))). expires_after_created r"
  using assms ttl_row [of ctx data]
  by (auto simp: insert_into_def split: sum.splits dest!: insert_row_Inr(1))

lemma expires_not_null_step:
  assumes "SqlNull \<notin> (\<lambda>r. field r ''expires_at'') ` set (sessions db)"
  shows "SqlNull \<notin> (\<lambda>r. field r ''expires_at'') ` set (sessions (snd (insert_into db ctx t data)))"
proof -
  have ses: "SqlNull \<notin> (\<lambda>r. field r ''expires_at'') ` set rows"
    if ins: "insert_row sessions_table ctx (sessions db) data = Inr rows" for rows
  proof -
    have "\<not> violates_not_null (new_row sessions_table ctx data)
            (notNullable (timestamp_col ''expires_at''))"
    proof -
      have "notNullable (timestamp_col ''expires_at'') \<in> set sessions_table"
        by (simp add: sessions_table_def)
      then show ?thesis using insert_row_Inr(2) [OF ins] by blast
    qed
    then have "field (new_row sessions_table ctx data) ''expires_at'' \<noteq> SqlNull"
      by (simp add: violates_not_null_def col_simps)
    then show ?thesis
      using assms unfolding insert_row_Inr(1) [OF ins] by auto
  qed
  show ?thesis
    using assms ses by (auto simp: insert_into_def split: sum.splits)
qed

text \<open>
  Claim C8, as amended. The schema makes \<open>expires_at\<close> of every session row a value other
  than NULL and nothing more. When every insert into \<open>sessions\<close> leaves \<open>created_at\<close> to its
  default \<open>now()\<close> and gives an \<open>expires_at\<close> after that \<open>now()\<close>, every row of the table has
  \<open>expires_at\<close> after \<open>created_at\<close>.
\<close>

theorem sessions_expiry_order:
  "SqlNull \<notin> (\<lambda>r. field r ''expires_at'') ` set (sessions (db_run qs))
   \<and> ((\<forall>q \<in> set qs. fst (snd q) = ''sessions'' \<longrightarrow> ttl_insert (fst q) (snd (snd q)))
        \<longrightarrow> (\<forall>r \<in> set (sessions (db_run qs)). expires_after_created r))"
proof (intro conjI impI)
  show "SqlNull \<notin> (\<lambda>r. field r ''expires_at'') ` set (sessions (db_run qs))"
    unfolding db_run_def
  proof (rule foldl_db_step_invariant
      [where P = "\<lambda>db. SqlNull \<notin> (\<lambda>r. field r ''expires_at'') ` set (sessions db)"])
    show "SqlNull \<notin> (\<lambda>r. field r ''expires_at'') ` set (sessions db_empty)"
      by (simp add: db_empty_def)
  next
    fix db :: database and q
    assume "SqlNull \<notin> (\<lambda>r. field r ''expires_at'') ` set (sessions db)"
    then show "SqlNull \<notin> (\<lambda>r. field r ''expires_at'') ` set (sessions (db_step db q))"
      by (cases q) (simp add: db_step_def expires_not_null_step)
  qed
next
  assume shaped: "\<forall>q \<in> set qs. fst (snd q) = ''sessions'' \<longrightarrow> ttl_insert (fst q) (snd (snd q))"
  show "\<forall>r \<in> set (sessions (db_run qs)). expires_after_created r"
    unfolding db_run_def
  proof (rule foldl_db_step_invariant
      [where P = "\<lambda>db. \<forall>r \<in> set (sessions db). expires_after_created r"])
    show "\<forall>r \<in> set (sessions db_empty). expires_after_created r"
      by (simp add: db_empty_def)
  next
    fix db :: database and q
    assume inv: "\<forall>r \<in> set (sessions db). expires_after_created r" and q: "q \<in> set qs"
    obtain ctx t data where [simp]: "q = (ctx, t, data)" by (cases q)
    have "t = ''sessions'' \<longrightarrow> ttl_insert ctx data"
      using shaped q by auto
    from expiry_step [OF inv this]
    show "\<forall>r \<in> set (sessions (db_step db q)). expires_after_created r"
      by (simp add: db_step_def)
  qed
qed

theorem sessions_expiry_order_witness:
  "ttl_insert \<lparr>uuid = ''u1'', now = 100\<rparr>
     [(''owner_user_id'', SqlText ''o1''), (''job_name'', SqlText ''j1''),
      (''expires_at'', SqlTimestamp 700)]
   \<and> expires_after_created
        [(''session_id'', SqlText ''u1''), (''owner_user_id'', SqlText ''o1''),
         (''job_name'', SqlText ''j1''), (''pod_name'', SqlNull), (''pod_ip'', SqlNull),
         (''created_at'', SqlTimestamp 100), (''expires_at'', SqlTimestamp 700)]"
proof -
  let ?ctx = "\<lparr>uuid = ''u1'', now = 100\<rparr>"
  let ?data = "[(''owner_user_id'', SqlText ''o1''), (''job_name'', SqlText ''j1''),
      (''expires_at'', SqlTimestamp 700)]"
  have shaped: "ttl_insert ?ctx ?data"
    by (simp add: ttl_insert_def)
  then have "\<forall>q \<in> set [(?ctx, ''sessions'', ?data)].
      fst (snd q) = ''sessions'' \<longrightarrow> ttl_insert (fst q) (snd (snd q))"
    by simp
  with sessions_expiry_order [of "[(?ctx, ''sessions'', ?data)]"]
  have "\<forall>r \<in> set (sessions (db_run [(?ctx, ''sessions'', ?data)])). expires_after_created r"
    by blast
  then show ?thesis
    unfolding db_run_one_session using shaped by simp
qed

subsection \<open>What the patterns match\<close>

text \<open>The matchers against the strings they are meant to accept: a substring test, the
  shapes of the \<open>case\<close> patterns, and the parts that the regular expression takes from a
  URL it matches.\<close>

lemma starts_with_iff: "starts_with p s \<longleftrightarrow> (\<exists>t. s = p @ t)"
  by (induction p s rule: starts_with.induct) auto

lemma contains_iff: "contains p s \<longleftrightarrow> (\<exists>a b. s = a @ p @ b)"
proof (induction s)
  case Nil
  show ?case by auto
next
  case (Cons x s)
  have "(\<exists>a b. x # s = a @ p @ b) \<longleftrightarrow> (\<exists>b. x # s = p @ b) \<or> (\<exists>a b. s = a @ p @ b)"
  proof
    assume "\<exists>a b. x # s = a @ p @ b"
    then obtain a b where ab: "x # s = a @ p @ b" by blast
    show "(\<exists>b. x # s = p @ b) \<or> (\<exists>a b. s = a @ p @ b)"
    proof (cases a)
      case Nil
      then show ?thesis using ab by auto
    next
      case (Cons y a')
      then have "s = a' @ p @ b" using ab by simp
      then show ?thesis by blast
    qed
  next
    assume "(\<exists>b. x # s = p @ b) \<or> (\<exists>a b. s = a @ p @ b)"
    then show "\<exists>a b. x # s = a @ p @ b"
    proof
      assume "\<exists>b. x # s = p @ b"
      then obtain b where "x # s = [] @ p @ b" by auto
      then show ?thesis by blast
    next
      assume "\<exists>a b. s = a @ p @ b"
      then obtain a b where "x # s = (x # a) @ p @ b" by auto
      then show ?thesis by blast
    qed
  qed
  then show ?case
    using Cons.IH by (simp add: starts_with_iff)
qed

lemma glob_match_Lit:
  "glob_match (map Lit p @ rest) s \<longleftrightarrow> (\<exists>t. s = p @ t \<and> glob_match rest t)"
proof (induction p arbitrary: s)
  case Nil
  show ?case by simp
next
  case (Cons c p)
  show ?case by (cases s) (auto simp: Cons.IH)
qed

lemma glob_match_Star:
  "glob_match (Star # rest) s \<longleftrightarrow> (\<exists>a t. s = a @ t \<and> glob_match rest t)"
proof (induction s)
  case Nil
  show ?case by simp
next
  case (Cons x s)
  have "(\<exists>a t. x # s = a @ t \<and> glob_match rest t)
        \<longleftrightarrow> glob_match rest (x # s) \<or> (\<exists>a t. s = a @ t \<and> glob_match rest t)"
  proof
    assume "\<exists>a t. x # s = a @ t \<and> glob_match rest t"
    then obtain a t where at: "x # s = a @ t" "glob_match rest t" by blast
    show "glob_match rest (x # s) \<or> (\<exists>a t. s = a @ t \<and> glob_match rest t)"
    proof (cases a)
      case Nil
      then show ?thesis using at by simp
    next
      case (Cons y a')
      then have "s = a' @ t" using at by simp
      then show ?thesis using at(2) by blast
    qed
  next
    assume "glob_match rest (x # s) \<or> (\<exists>a t. s = a @ t \<and> glob_match rest t)"
    then show "\<exists>a t. x # s = a @ t \<and> glob_match rest t"
    proof
      assume "glob_match rest (x # s)"
      then have "x # s = [] @ (x # s) \<and> glob_match rest (x # s)" by simp
      then show ?thesis by blast
    next
      assume "\<exists>a t. s = a @ t \<and> glob_match rest t"
      then obtain a t where "x # s = (x # a) @ t \<and> glob_match rest t" by auto
      then show ?thesis by blast
    qed
  qed
  then show ?case using Cons.IH by simp
qed

lemma glob_suffix: "glob_match (Star # map Lit p) s \<longleftrightarrow> (\<exists>a. s = a @ p)"
  using glob_match_Lit [of p "[]"] by (auto simp: glob_match_Star)

lemma zip_shape_iff: "zip_shape url \<longleftrightarrow> (\<exists>a. url = a @ ''.zip'')"
proof -
  have "glob ''*.zip'' = Star # map Lit ''.zip''" by (simp add: glob_def)
  then show ?thesis by (simp only: zip_shape_def glob_suffix)
qed

lemma tgz_shape_iff: "tgz_shape url \<longleftrightarrow> (\<exists>a. url = a @ ''.tgz'') \<or> (\<exists>a. url = a @ ''.tar.gz'')"
proof -
  have "glob ''*.tgz'' = Star # map Lit ''.tgz''" "glob ''*.tar.gz'' = Star # map Lit ''.tar.gz''"
    by (simp_all add: glob_def)
  then show ?thesis by (simp only: tgz_shape_def glob_suffix)
qed

lemma git_shape_iff: "git_shape url \<longleftrightarrow> (\<exists>a b. url = a @ ''.git'' @ b)"
proof -
  have 1: "glob ''*.git'' = Star # map Lit ''.git''"
    and 2: "glob ''*.git*'' = Star # (map Lit ''.git'' @ [Star])"
    by (simp_all add: glob_def)
  have "glob_match (glob ''*.git*'') url \<longleftrightarrow> (\<exists>a b. url = a @ ''.git'' @ b)"
    unfolding 2 glob_match_Star glob_match_Lit by auto
  moreover have "glob_match (glob ''*.git'') url \<longleftrightarrow> (\<exists>a. url = a @ ''.git'')"
    unfolding 1 by (rule glob_suffix)
  ultimately show ?thesis
    unfolding git_shape_def by (metis append_Nil2)
qed

lemma glob_match_all: "glob_match [Star] s"
  by (induction s) simp_all

lemma glob_two_parts:
  "glob_match (Star # (map Lit p @ Star # (map Lit q @ [Star]))) s
     \<longleftrightarrow> (\<exists>a b c. s = a @ p @ b @ q @ c)"
proof
  assume "glob_match (Star # (map Lit p @ Star # (map Lit q @ [Star]))) s"
  then obtain a t where 1: "s = a @ t" "glob_match (map Lit p @ Star # (map Lit q @ [Star])) t"
    unfolding glob_match_Star by blast
  then obtain t' where 2: "t = p @ t'" "glob_match (Star # (map Lit q @ [Star])) t'"
    unfolding glob_match_Lit by blast
  then obtain b u where 3: "t' = b @ u" "glob_match (map Lit q @ [Star]) u"
    unfolding glob_match_Star by blast
  then obtain c where 4: "u = q @ c"
    unfolding glob_match_Lit by blast
  show "\<exists>a b c. s = a @ p @ b @ q @ c"
    using 1(1) 2(1) 3(1) 4 by blast
next
  assume "\<exists>a b c. s = a @ p @ b @ q @ c"
  then obtain a b c where s: "s = a @ p @ b @ q @ c" by blast
  have "glob_match (map Lit q @ [Star]) (q @ c)"
    unfolding glob_match_Lit using glob_match_all by blast
  then have "glob_match (Star # (map Lit q @ [Star])) (b @ q @ c)"
    unfolding glob_match_Star by blast
  then have "glob_match (map Lit p @ Star # (map Lit q @ [Star])) (p @ b @ q @ c)"
    unfolding glob_match_Lit by blast
  then show "glob_match (Star # (map Lit p @ Star # (map Lit q @ [Star]))) s"
    unfolding glob_match_Star s by blast
qed

lemma github_tree_shape_iff:
  "github_tree_shape url \<longleftrightarrow> (\<exists>a b c. url = a @ ''github.com/'' @ b @ ''/tree/'' @ c)"
proof -
  have g: "glob ''*github.com/*/tree/*''
             = Star # (map Lit ''github.com/'' @ Star # (map Lit ''/tree/'' @ [Star]))"
    by (simp add: glob_def)
  show ?thesis
    unfolding github_tree_shape_def g by (rule glob_two_parts)
qed

lemma dangerous_patterns_iff:
  "dangerous_patterns c \<longleftrightarrow>
     (\<exists>a b. c = a @ ''$('' @ b) \<or> (\<exists>a b. c = a @ ''`'' @ b) \<or> (\<exists>a b. c = a @ ''${'' @ b)"
  unfolding dangerous_patterns_def contains_iff ..

lemma split_at_slash:
  assumes "dropWhile no_slash r \<noteq> []"
  shows "r = takeWhile no_slash r @ CHR ''/'' # tl (dropWhile no_slash r)"
    and "CHR ''/'' \<notin> set (takeWhile no_slash r)"
proof -
  have "\<not> no_slash (hd (dropWhile no_slash r))"
    using assms by (rule hd_dropWhile)
  then have "hd (dropWhile no_slash r) = CHR ''/''"
    by (simp add: no_slash_def)
  then have "dropWhile no_slash r = CHR ''/'' # tl (dropWhile no_slash r)"
    using assms by (metis list.collapse)
  then show "r = takeWhile no_slash r @ CHR ''/'' # tl (dropWhile no_slash r)"
    by (metis takeWhile_dropWhile_id)
  show "CHR ''/'' \<notin> set (takeWhile no_slash r)"
    using set_takeWhileD [of "CHR ''/''" no_slash r] by (auto simp: no_slash_def)
qed

lemma regex_here_sound:
  assumes "regex_here s = Some (owner, repo, ref, folder)"
  shows "\<exists>x. s = ''github'' @ [x] @ ''com/'' @ owner @ ''/'' @ repo @ ''/tree/'' @ ref @ ''/'' @ folder"
    and "owner \<noteq> [] \<and> repo \<noteq> [] \<and> ref \<noteq> [] \<and> folder \<noteq> []"
    and "CHR ''/'' \<notin> set owner \<union> set repo \<union> set ref"
proof -
  let ?r0 = "drop 11 s"
  let ?r2 = "tl (dropWhile no_slash ?r0)"
  let ?r3 = "dropWhile no_slash ?r2"
  let ?r4 = "drop 6 ?r3"
  let ?r5 = "dropWhile no_slash ?r4"
  from assms have pre: "starts_with ''github'' s" "6 < length s" "starts_with ''com/'' (drop 7 s)"
    and o: "owner = takeWhile no_slash ?r0" "owner \<noteq> []" "dropWhile no_slash ?r0 \<noteq> []"
    and r: "repo = takeWhile no_slash ?r2" "repo \<noteq> []" "starts_with ''/tree/'' ?r3"
    and f: "ref = takeWhile no_slash ?r4" "ref \<noteq> []" "?r5 \<noteq> []" "tl ?r5 \<noteq> []"
      "folder = tl ?r5"
    unfolding regex_here_def Let_def by (auto split: if_splits)
  from pre(1) obtain t where t: "s = ''github'' @ t"
    unfolding starts_with_iff by blast
  with pre(2) obtain x t' where t': "t = x # t'"
    by (cases t) auto
  from pre(3) obtain u where u: "drop 7 s = ''com/'' @ u"
    unfolding starts_with_iff by blast
  have s: "s = ''github'' @ [x] @ ''com/'' @ ?r0"
    using t t' u by auto
  have 1: "?r0 = owner @ CHR ''/'' # ?r2" and n1: "CHR ''/'' \<notin> set owner"
    using split_at_slash [OF o(3)] o(1) by simp_all
  from r(3) obtain v where v: "?r3 = ''/tree/'' @ v"
    unfolding starts_with_iff by blast
  then have "?r3 \<noteq> []" by simp
  then have 2: "?r2 = repo @ ?r3" and n2: "CHR ''/'' \<notin> set repo"
    using split_at_slash(2) [of ?r2] r(1) by (simp_all add: takeWhile_dropWhile_id)
  have r4: "?r4 = v" using v by simp
  have 3: "?r4 = ref @ CHR ''/'' # folder" and n3: "CHR ''/'' \<notin> set ref"
    using split_at_slash [OF f(3)] f(1,5) by simp_all
  have "s = ''github'' @ [x] @ ''com/'' @ owner @ ''/'' @ repo @ ''/tree/'' @ ref @ ''/'' @ folder"
    using s 1 2 v r4 3 by (metis append.assoc append_Cons append_Nil)
  then show "\<exists>x. s = ''github'' @ [x] @ ''com/'' @ owner @ ''/'' @ repo @ ''/tree/'' @ ref @ ''/'' @ folder"
    by blast
  show "owner \<noteq> [] \<and> repo \<noteq> [] \<and> ref \<noteq> [] \<and> folder \<noteq> []"
    using o(2) r(2) f(2,4,5) by simp
  show "CHR ''/'' \<notin> set owner \<union> set repo \<union> set ref"
    using n1 n2 n3 by simp
qed

lemma regex_search_here:
  "regex_search s = Some m \<Longrightarrow> \<exists>a t. s = a @ t \<and> regex_here t = Some m"
proof (induction s)
  case Nil
  then show ?case by simp
next
  case (Cons x s)
  show ?case
  proof (cases "regex_here (x # s)")
    case None
    then have "regex_search s = Some m" using Cons.prems by simp
    then obtain a t where "s = a @ t" "regex_here t = Some m" using Cons.IH by blast
    then have "x # s = (x # a) @ t \<and> regex_here t = Some m" by simp
    then show ?thesis by blast
  next
    case (Some m')
    then have "x # s = [] @ (x # s) \<and> regex_here (x # s) = Some m" using Cons.prems by simp
    then show ?thesis by blast
  qed
qed

lemma regex_search_sound:
  assumes "regex_search url = Some (owner, repo, ref, folder)"
  shows "\<exists>a x. url = a @ ''github'' @ [x] @ ''com/'' @ owner @ ''/'' @ repo @ ''/tree/'' @ ref
                      @ ''/'' @ folder"
    and "owner \<noteq> [] \<and> repo \<noteq> [] \<and> ref \<noteq> [] \<and> folder \<noteq> []"
    and "CHR ''/'' \<notin> set owner \<union> set repo \<union> set ref"
proof -
  from regex_search_here [OF assms] obtain a t
    where t: "url = a @ t" "regex_here t = Some (owner, repo, ref, folder)" by blast
  from regex_here_sound(1) [OF t(2)] t(1)
  show "\<exists>a x. url = a @ ''github'' @ [x] @ ''com/'' @ owner @ ''/'' @ repo @ ''/tree/'' @ ref
                      @ ''/'' @ folder"
    by blast
  show "owner \<noteq> [] \<and> repo \<noteq> [] \<and> ref \<noteq> [] \<and> folder \<noteq> []"
    and "CHR ''/'' \<notin> set owner \<union> set repo \<union> set ref"
    using regex_here_sound(2,3) [OF t(2)] by blast+
qed

subsection \<open>Properties of the validation of the commands\<close>

lemma and_then_simps [simp]:
  "and_then (Exit n tr) g = Exit n tr"
  "and_then (Next x tr) g = g x tr"
  by (simp_all add: and_then_def)

lemma world_ok_counts_bytes: "char_count (world_ok content status) s = length s"
  by (simp add: world_ok_def)

lemma validate_command_status: "fst (validate_command w c) = 0 \<or> fst (validate_command w c) = 1"
  by (simp add: validate_command_def)

lemma validate_command_accepts:
  "fst (validate_command w c) = 0 \<Longrightarrow> snd (validate_command w c) = []"
  by (simp add: validate_command_def split: if_splits)

lemma validate_var_acceptable:
  "acceptable w v \<Longrightarrow> validate_var w v tr = Next () tr"
  by (auto simp: acceptable_def validate_var_def validate_command_accepts split: option.splits)

lemma validate_var_rejected:
  "v = Some c \<Longrightarrow> c \<noteq> [] \<Longrightarrow> fst (validate_command w c) \<noteq> 0 \<Longrightarrow>
   validate_var w v tr = Exit 1 (tr @ map Echo (snd (validate_command w c)))"
  by (simp add: validate_var_def)

lemma check_inputs_command_rejected:
  assumes "CODE_URL e = Some url" "url \<noteq> []" "COMMAND e = Some c" "c \<noteq> []"
    "fst (validate_command w c) \<noteq> 0"
  shows "check_inputs w e
           = Exit 1 (Echo (''[entrypoint] CODE_URL='' @ url) # map Echo (snd (validate_command w c)))"
  using assms by (simp add: check_inputs_def say_def validate_var_rejected)

lemma check_inputs_install_rejected:
  assumes "CODE_URL e = Some url" "url \<noteq> []" "acceptable w (COMMAND e)"
    "INSTALL_CMD e = Some c" "c \<noteq> []" "fst (validate_command w c) \<noteq> 0"
  shows "check_inputs w e
           = Exit 1 (Echo (''[entrypoint] CODE_URL='' @ url) # map Echo (snd (validate_command w c)))"
  using assms by (simp add: check_inputs_def say_def validate_var_rejected validate_var_acceptable)


lemma entrypoint_check_exit:
  "check_inputs w e = Exit st tr \<Longrightarrow> entrypoint w e = Some (st, tr)"
  by (simp add: entrypoint_def prepare_def)

lemma check_inputs_exit_only_echo:
  "check_inputs w e = Exit st tr \<Longrightarrow> st \<noteq> 0 \<and> list_all is_echo tr"
  by (auto simp: check_inputs_def validate_var_def say_def list_all_iff and_then_def
      split: option.splits if_splits flow.splits)

lemma check_inputs_dangerous:
  assumes "(\<exists>c. COMMAND e = Some c \<and> c \<noteq> [] \<and> fst (validate_command w c) \<noteq> 0)
         \<or> (\<exists>c. INSTALL_CMD e = Some c \<and> c \<noteq> [] \<and> fst (validate_command w c) \<noteq> 0)"
  shows "\<exists>st tr. check_inputs w e = Exit st tr"
  using assms
  by (auto simp: check_inputs_def validate_var_def say_def and_then_def
      split: option.splits if_splits flow.splits)

text \<open>
  Claim C4. A command with \<open>$(\<close>, a backquote or \<open>${\<close> in it is refused by
  \<open>validate_command\<close> with the message about substitution patterns, and a command with
  none of the three passes that check (it is then refused only when the shell counts more
  than 500 characters in it). When
  COMMAND, or INSTALL_CMD after a COMMAND that passed, is such a value, not empty, the
  script ends with status 1 having run nothing but its two \<open>echo\<close>s; and whatever the other
  variables are, the script ends with a status other than 0 having run nothing but
  \<open>echo\<close>: no download, no installation, no command.
\<close>

theorem validate_command_rejects_substitution:
  "(dangerous_patterns c \<longrightarrow>
      validate_command w c = (1, [''[fatal] Command contains dangerous substitution patterns'']))
   \<and> (\<not> dangerous_patterns c \<longrightarrow>
        validate_command w c
          = (if 500 < char_count w c then (1, [''[fatal] Command exceeds maximum length''])
             else (0, [])))
   \<and> (CODE_URL e = Some url \<and> url \<noteq> [] \<and> COMMAND e = Some c \<and> c \<noteq> [] \<and> dangerous_patterns c
        \<longrightarrow> entrypoint w e
              = Some (1, [Echo (''[entrypoint] CODE_URL='' @ url),
                          Echo ''[fatal] Command contains dangerous substitution patterns'']))
   \<and> (CODE_URL e = Some url \<and> url \<noteq> [] \<and> acceptable w (COMMAND e)
        \<and> INSTALL_CMD e = Some c \<and> c \<noteq> [] \<and> dangerous_patterns c
        \<longrightarrow> entrypoint w e
              = Some (1, [Echo (''[entrypoint] CODE_URL='' @ url),
                          Echo ''[fatal] Command contains dangerous substitution patterns'']))
   \<and> ((COMMAND e = Some c \<or> INSTALL_CMD e = Some c) \<and> c \<noteq> [] \<and> dangerous_patterns c
        \<longrightarrow> (\<exists>st tr. entrypoint w e = Some (st, tr) \<and> st \<noteq> 0 \<and> list_all is_echo tr))"
proof (intro conjI impI)
  show "validate_command w c = (1, [''[fatal] Command contains dangerous substitution patterns''])"
    if "dangerous_patterns c"
    using that by (simp add: validate_command_def)
  show "validate_command w c
          = (if 500 < char_count w c then (1, [''[fatal] Command exceeds maximum length''])
             else (0, []))"
    if "\<not> dangerous_patterns c"
    using that by (simp add: validate_command_def)
  show "entrypoint w e
          = Some (1, [Echo (''[entrypoint] CODE_URL='' @ url),
                      Echo ''[fatal] Command contains dangerous substitution patterns''])"
    if "CODE_URL e = Some url \<and> url \<noteq> [] \<and> COMMAND e = Some c \<and> c \<noteq> [] \<and> dangerous_patterns c"
  proof -
    have "check_inputs w e
          = Exit 1 (Echo (''[entrypoint] CODE_URL='' @ url) # map Echo (snd (validate_command w c)))"
      by (rule check_inputs_command_rejected) (use that in \<open>simp_all add: validate_command_def\<close>)
    then show ?thesis
      using that by (simp add: entrypoint_check_exit validate_command_def)
  qed
  show "entrypoint w e
          = Some (1, [Echo (''[entrypoint] CODE_URL='' @ url),
                      Echo ''[fatal] Command contains dangerous substitution patterns''])"
    if "CODE_URL e = Some url \<and> url \<noteq> [] \<and> acceptable w (COMMAND e)
        \<and> INSTALL_CMD e = Some c \<and> c \<noteq> [] \<and> dangerous_patterns c"
  proof -
    have "check_inputs w e
          = Exit 1 (Echo (''[entrypoint] CODE_URL='' @ url) # map Echo (snd (validate_command w c)))"
      by (rule check_inputs_install_rejected) (use that in \<open>simp_all add: validate_command_def\<close>)
    then show ?thesis
      using that by (simp add: entrypoint_check_exit validate_command_def)
  qed
  show "\<exists>st tr. entrypoint w e = Some (st, tr) \<and> st \<noteq> 0 \<and> list_all is_echo tr"
    if h: "(COMMAND e = Some c \<or> INSTALL_CMD e = Some c) \<and> c \<noteq> [] \<and> dangerous_patterns c"
  proof -
    have "fst (validate_command w c) \<noteq> 0"
      using h by (simp add: validate_command_def)
    then obtain st tr where x: "check_inputs w e = Exit st tr"
      using check_inputs_dangerous [of e] h by blast
    then show ?thesis
      using check_inputs_exit_only_echo [OF x] entrypoint_check_exit [OF x] by blast
  qed
qed

theorem validate_command_rejects_substitution_witness:
  "dangerous_patterns ''echo $(id)''
   \<and> validate_command (world_ok [] 0) ''echo $(id)''
       = (1, [''[fatal] Command contains dangerous substitution patterns''])
   \<and> \<not> dangerous_patterns ''npm start''
   \<and> validate_command (world_ok [] 0) ''npm start'' = (0, [])
   \<and> entrypoint (world_ok [] 0) (env_of ''https://h/x.zip'' ''echo $(id)'')
       = Some (1, [Echo ''[entrypoint] CODE_URL=https://h/x.zip'',
                   Echo ''[fatal] Command contains dangerous substitution patterns''])"
proof -
  have d: "dangerous_patterns ''echo $(id)''" and n: "\<not> dangerous_patterns ''npm start''"
    by (simp_all add: dangerous_patterns_def)
  from validate_command_rejects_substitution
    [where c = "''echo $(id)''" and e = "env_of ''https://h/x.zip'' ''echo $(id)''"
       and url = "''https://h/x.zip''" and w = "world_ok [] 0"]
    validate_command_rejects_substitution
    [where c = "''npm start''" and e = "env_of ''https://h/x.zip'' ''echo $(id)''"
       and url = "''https://h/x.zip''" and w = "world_ok [] 0"]
    d n world_ok_counts_bytes [of "[]" 0 "''npm start''"]
  show ?thesis by (simp add: env_of_def)
qed








subsection \<open>Properties of the fetching of the code\<close>


lemma issued_must [simp]: "issued (must w c tr) = tr @ [c]"
  by (simp add: must_def)






subsection \<open>The commands that the script runs\<close>

lemma extends_refl [simp]: "extends P tr tr"
  by (simp add: extends_def)

lemma extends_iff: "extends P tr tr' \<longleftrightarrow> (\<exists>new. tr' = tr @ new \<and> list_all P new)"
proof
  assume "extends P tr tr'"
  then have "take (length tr) tr' = tr" and 2: "list_all P (drop (length tr) tr')"
    unfolding extends_def by simp_all
  then have "tr' = tr @ drop (length tr) tr'"
    by (metis append_take_drop_id)
  with 2 show "\<exists>new. tr' = tr @ new \<and> list_all P new" by blast
next
  assume "\<exists>new. tr' = tr @ new \<and> list_all P new"
  then show "extends P tr tr'" by (auto simp: extends_def)
qed

lemma extends_trans: "extends P tr tr' \<Longrightarrow> extends P tr' tr'' \<Longrightarrow> extends P tr tr''"
  unfolding extends_iff by auto

lemma extends_snoc: "P c \<Longrightarrow> extends P tr tr' \<Longrightarrow> extends P tr (tr' @ [c])"
  unfolding extends_iff by auto

lemma extends_say: "P (Echo m) \<Longrightarrow> extends P tr tr' \<Longrightarrow> extends P tr (say m tr')"
  unfolding say_def by (rule extends_snoc)

lemma extends_set: "extends P tr tr' \<Longrightarrow> c \<in> set tr' \<Longrightarrow> c \<in> set tr \<or> P c"
  unfolding extends_iff by (auto simp: list_all_iff)

lemma adds_Next: "extends P tr tr' \<Longrightarrow> adds P tr (Next x tr')"
  by (simp add: adds_def)

lemma adds_Exit: "extends P tr tr' \<Longrightarrow> adds P tr (Exit n tr')"
  by (simp add: adds_def)

lemma adds_must: "P c \<Longrightarrow> extends P tr tr' \<Longrightarrow> adds P tr (must w c tr')"
  by (simp add: adds_def extends_snoc)

lemma adds_and_then:
  assumes "adds P tr f" and "\<And>x tr'. extends P tr tr' \<Longrightarrow> adds P tr (g x tr')"
  shows "adds P tr (and_then f g)"
  using assms by (cases f) (simp_all add: adds_def)

lemma adds_and_then_result:
  assumes "adds P tr f"
    and "\<And>x tr'. f = Next x tr' \<Longrightarrow> extends P tr tr' \<Longrightarrow> adds P tr (g x tr')"
  shows "adds P tr (and_then f g)"
  using assms by (cases f) (simp_all add: adds_def)

lemma adds_attempt:
  assumes "P c" "extends P tr tr'"
    and "\<And>r. adds P tr (F r (tr' @ [c]))"
  shows "adds P tr (case attempt w c tr' of (r, tr'') \<Rightarrow> F r tr'')"
  using assms by (simp add: attempt_def)

lemma adds_if: "(b \<Longrightarrow> adds P tr f) \<Longrightarrow> (\<not> b \<Longrightarrow> adds P tr g) \<Longrightarrow> adds P tr (if b then f else g)"
  by simp

lemmas adds_intros = adds_and_then adds_must adds_attempt adds_Next adds_Exit adds_if
  extends_say extends_snoc

lemma github_tree_adds:
  assumes P: "\<And>c. \<not> is_sha256sum c \<Longrightarrow> P c" and tr: "extends P tr0 tr"
  shows "adds P tr0 (github_tree w url tr)"
  unfolding github_tree_def Let_def
  by (auto split: option.splits intro!: adds_intros P tr)

lemma github_tree_clears_checksum:
  "github_tree w url tr = Next fc tr' \<Longrightarrow> snd fc = []"
  unfolding github_tree_def Let_def
  by (auto simp: and_then_def must_def attempt_def split: option.splits if_splits)

lemma fetch_code_adds:
  assumes P: "\<And>c. \<not> is_sha256sum c \<Longrightarrow> P c" and tr: "extends P tr0 tr"
  shows "adds P tr0 (fetch_code w url cs tr)"
  unfolding fetch_code_def
  by (auto intro!: adds_intros P tr github_tree_adds)

lemma verify_checksum_adds:
  assumes P: "\<And>c. \<not> is_sha256sum c \<Longrightarrow> P c"
    and sha: "cs \<noteq> [] \<Longrightarrow> P (Sha256sumCheck cs ''bundle.zip'') \<and> P (Sha256sumCheck cs ''bundle.tgz'')"
    and tr: "extends P tr0 tr"
  shows "adds P tr0 (verify_checksum w cs tr)"
proof -
  have z: "P (Sha256sumCheck cs ''bundle.zip'')" and t: "P (Sha256sumCheck cs ''bundle.tgz'')"
    if "cs \<noteq> []"
    using sha that by blast+
  have f: "P (TestF x)" for x
    by (rule P) simp
  show ?thesis
    unfolding verify_checksum_def
    by (auto intro!: adds_intros tr z t f)
qed

lemma extract_zip_adds:
  assumes P: "\<And>c. \<not> is_sha256sum c \<Longrightarrow> P c" and tr: "extends P tr0 tr"
  shows "adds P tr0 (extract_zip w tr)"
  unfolding extract_zip_def
  by (auto intro!: adds_intros P tr)

lemma extract_tgz_adds:
  assumes P: "\<And>c. \<not> is_sha256sum c \<Longrightarrow> P c" and tr: "extends P tr0 tr"
  shows "adds P tr0 (extract_tgz w tr)"
  unfolding extract_tgz_def
  by (auto intro!: adds_intros P tr)

lemma enter_single_dir_adds:
  assumes P: "\<And>c. \<not> is_sha256sum c \<Longrightarrow> P c" and tr: "extends P tr0 tr"
  shows "adds P tr0 (enter_single_dir w folder tr)"
  unfolding enter_single_dir_def
  by (auto intro!: adds_intros P tr)

lemma enter_src_adds:
  assumes P: "\<And>c. \<not> is_sha256sum c \<Longrightarrow> P c" and tr: "extends P tr0 tr"
  shows "adds P tr0 (enter_src w folder tr)"
  unfolding enter_src_def
  by (auto intro!: adds_intros P tr enter_single_dir_adds)

lemma install_adds:
  assumes P: "\<And>c. \<not> is_sha256sum c \<Longrightarrow> P c" and tr: "extends P tr0 tr"
  shows "adds P tr0 (install w ic tr)"
  unfolding install_def Let_def
  by (auto intro!: adds_intros P tr)

lemma launch_adds:
  assumes P: "\<And>c. \<not> is_sha256sum c \<Longrightarrow> P c" and tr: "extends P tr0 tr"
  shows "adds P tr0 (launch w e tr)"
  unfolding launch_def Let_def
  by (auto split: option.splits intro!: adds_intros P tr)

lemma check_inputs_adds:
  assumes P: "\<And>c. \<not> is_sha256sum c \<Longrightarrow> P c"
  shows "adds P [] (check_inputs w e)"
  unfolding check_inputs_def validate_var_def adds_def extends_def
  by (auto simp: say_def list_all_iff and_then_def P split: option.splits flow.splits)

lemma check_inputs_Next: "check_inputs w e = Next url tr \<Longrightarrow> CODE_URL e = Some url"
  by (auto simp: check_inputs_def and_then_def split: option.splits if_splits flow.splits)

lemma fetch_code_checksum:
  "fetch_code w url cs tr = Next fc tr' \<Longrightarrow>
   snd fc = (if github_tree_shape url then [] else cs)"
  unfolding fetch_code_def github_tree_shape_def
  by (auto simp: and_then_def must_def split: if_splits dest: github_tree_clears_checksum)

lemma prepare_adds:
  assumes P: "\<And>c. \<not> is_sha256sum c \<Longrightarrow> P c"
    and sha: "\<And>url. CODE_URL e = Some url \<Longrightarrow> \<not> github_tree_shape url \<Longrightarrow>
               or_default [] (CODE_CHECKSUM_SHA256 e) \<noteq> [] \<Longrightarrow>
               P (Sha256sumCheck (or_default [] (CODE_CHECKSUM_SHA256 e)) ''bundle.zip'')
               \<and> P (Sha256sumCheck (or_default [] (CODE_CHECKSUM_SHA256 e)) ''bundle.tgz'')"
  shows "adds P [] (prepare w e)"
  unfolding prepare_def
proof (rule adds_and_then_result [OF check_inputs_adds [of P, OF P]])
  fix url tr1
  assume url: "check_inputs w e = Next url tr1" and tr1: "extends P [] tr1"
  let ?cs = "or_default [] (CODE_CHECKSUM_SHA256 e)"
  show "adds P []
     (and_then (fetch_code w url ?cs tr1) (\<lambda>fc tr2.
      and_then (verify_checksum w (snd fc) tr2) (\<lambda>_ tr3.
      and_then (extract_zip w tr3) (\<lambda>_ tr4.
      and_then (extract_tgz w tr4) (\<lambda>_ tr5.
      and_then (enter_src w (fst fc) tr5) (\<lambda>_ tr6.
      and_then (install w (INSTALL_CMD e) tr6) (\<lambda>_ tr7.
        launch w e tr7)))))))"
  proof (rule adds_and_then_result [OF fetch_code_adds [of P, OF P tr1]])
    fix fc tr2
    assume fc: "fetch_code w url ?cs tr1 = Next fc tr2" and tr2: "extends P [] tr2"
    have cs: "snd fc = (if github_tree_shape url then [] else ?cs)"
      using fetch_code_checksum [OF fc] .
    have v: "adds P [] (verify_checksum w (snd fc) tr2)"
    proof (rule verify_checksum_adds [of P, OF P _ tr2])
      assume "snd fc \<noteq> []"
      then have "\<not> github_tree_shape url" "?cs \<noteq> []" "snd fc = ?cs"
        using cs by (auto split: if_splits)
      then show "P (Sha256sumCheck (snd fc) ''bundle.zip'') \<and> P (Sha256sumCheck (snd fc) ''bundle.tgz'')"
        using sha [OF check_inputs_Next [OF url]] by simp
    qed
    show "adds P []
      (and_then (verify_checksum w (snd fc) tr2) (\<lambda>_ tr3.
       and_then (extract_zip w tr3) (\<lambda>_ tr4.
       and_then (extract_tgz w tr4) (\<lambda>_ tr5.
       and_then (enter_src w (fst fc) tr5) (\<lambda>_ tr6.
       and_then (install w (INSTALL_CMD e) tr6) (\<lambda>_ tr7.
         launch w e tr7))))))"
      by (intro adds_and_then v extract_zip_adds extract_tgz_adds enter_src_adds install_adds
          launch_adds P)
  qed
qed

lemma extends_appendI: "extends P tr0 tr \<Longrightarrow> list_all P new \<Longrightarrow> extends P tr0 (tr @ new)"
  unfolding extends_iff by auto

lemma monitor_adds:
  assumes P: "\<And>c. \<not> is_sha256sum c \<Longrightarrow> P c"
    and m: "monitor w socket session tr = Some f"
    and tr: "extends P tr0 tr"
  shows "adds P tr0 f"
proof -
  have "\<forall>tr0. extends P tr0 tr \<longrightarrow> adds P tr0 f"
  proof (rule monitor.raw_induct
      [where P = "\<lambda>w socket session tr f. \<forall>tr0. extends P tr0 tr \<longrightarrow> adds P tr0 f", OF _ m])
    fix mon :: "world \<Rightarrow> string \<Rightarrow> string \<Rightarrow> cmd list \<Rightarrow> unit flow option"
      and w socket session tr f
    assume IH: "\<And>w socket session tr f. mon w socket session tr = Some f \<Longrightarrow>
                  \<forall>tr0. extends P tr0 tr \<longrightarrow> adds P tr0 f"
      and body: "(if fst (sys w tr (TmuxHasSession socket session)) \<noteq> 0
          then Some (Next () (tr @ [TmuxHasSession socket session]))
          else if fst (sys w (tr @ [TmuxHasSession socket session]) (Sleep 2)) \<noteq> 0
               then Some (Exit (fst (sys w (tr @ [TmuxHasSession socket session]) (Sleep 2)))
                           (tr @ [TmuxHasSession socket session, Sleep 2]))
               else mon w socket session (tr @ [TmuxHasSession socket session, Sleep 2]))
          = Some f"
    show "\<forall>tr0. extends P tr0 tr \<longrightarrow> adds P tr0 f"
    proof (intro allI impI)
      fix tr0
      assume t: "extends P tr0 tr"
      have e1: "extends P tr0 (tr @ [TmuxHasSession socket session])"
        and e2: "extends P tr0 (tr @ [TmuxHasSession socket session, Sleep 2])"
        by (rule extends_appendI [OF t], simp add: P)+
      show "adds P tr0 f"
        using body IH e1 e2 by (auto simp: adds_def split: if_splits)
    qed
  qed
  then show ?thesis using tr by blast
qed

lemma collect_job_code_extends:
  assumes P: "\<And>c. \<not> is_sha256sum c \<Longrightarrow> P c" and tr: "extends P tr0 tr"
  shows "extends P tr0 (snd (collect_job_code w f tr))"
  unfolding collect_job_code_def attempt_def Let_def say_def
  by (auto intro!: extends_appendI tr simp: P)

lemma supervise_extends:
  assumes P: "\<And>c. \<not> is_sha256sum c \<Longrightarrow> P c" and tr: "extends P tr0 tr"
    and s: "supervise w e tr = Some (st, tr')"
  shows "extends P tr0 tr'"
proof (cases "or_default ''true'' (EXIT_ON_JOB e) = ''false''")
  case True
  then show ?thesis
    using s unfolding supervise_def Let_def say_def
    by (auto split: option.splits if_splits intro!: extends_appendI tr simp: P)
next
  case False
  let ?session = "or_default ''job'' (TMUX_SESSION e)"
  let ?socket = "or_default ''/tmp/tmux/tmux.sock'' (TMUX_SOCKET e)"
  from s False obtain f where m: "monitor w ?socket ?session tr = Some f"
    unfolding supervise_def Let_def by (auto split: option.splits)
  have a: "adds P tr0 f"
    using monitor_adds [of P, OF P m tr] .
  show ?thesis
  proof (cases f)
    case (Exit n tr1)
    then show ?thesis
      using s False m a unfolding supervise_def Let_def by (simp add: adds_def)
  next
    case (Next u tr1)
    then have tr1: "extends P tr0 tr1" using a by (simp add: adds_def)
    let ?tr2 = "say ''[entrypoint] Command finished, shutting down...'' tr1"
    have "extends P tr0 ?tr2"
      unfolding say_def by (rule extends_appendI [OF tr1]) (simp add: P)
    then have c: "extends P tr0 (snd (collect_job_code w (exit_file_of ?session) ?tr2))"
      by (intro collect_job_code_extends P)
    obtain jc tr3 where j: "collect_job_code w (exit_file_of ?session) ?tr2 = (jc, tr3)"
      by fastforce
    have "tr' = tr3 @ [KillTermTtyd, WaitTtyd, Echo (''[entrypoint] Container exiting with code: '' @ jc)]"
      using s False m Next j unfolding supervise_def Let_def
      by (auto simp: attempt_def say_def split: option.splits)
    moreover have "extends P tr0 tr3" using c j by simp
    ultimately show ?thesis
      by (auto intro!: extends_appendI simp: P)
  qed
qed

lemma entrypoint_extends:
  assumes P: "\<And>c. \<not> is_sha256sum c \<Longrightarrow> P c"
    and sha: "\<And>url. CODE_URL e = Some url \<Longrightarrow> \<not> github_tree_shape url \<Longrightarrow>
               or_default [] (CODE_CHECKSUM_SHA256 e) \<noteq> [] \<Longrightarrow>
               P (Sha256sumCheck (or_default [] (CODE_CHECKSUM_SHA256 e)) ''bundle.zip'')
               \<and> P (Sha256sumCheck (or_default [] (CODE_CHECKSUM_SHA256 e)) ''bundle.tgz'')"
    and r: "entrypoint w e = Some (st, tr)"
  shows "list_all P tr"
proof -
  have p: "extends P [] (issued (prepare w e))"
    using prepare_adds [of P e w, OF P sha] by (simp add: adds_def)
  have "extends P [] tr"
  proof (cases "prepare w e")
    case (Exit n tr1)
    then show ?thesis using r p by (simp add: entrypoint_def)
  next
    case (Next u tr1)
    then show ?thesis
      using r p supervise_extends [of P "[]" tr1 w e st tr, OF P] by (simp add: entrypoint_def)
  qed
  then show ?thesis by (simp add: extends_def)
qed

text \<open>
  Claim C9. For a URL of the GitHub tree shape, whatever the commands answer, nothing that
  the script runs is a \<open>sha256sum\<close> check, and the branch leaves CODE_CHECKSUM_SHA256 empty
  whatever it was. And for every run, a \<open>sha256sum\<close> check that the script runs is a check
  of \<open>bundle.zip\<close> or \<open>bundle.tgz\<close> against the checksum given, which is then not empty, for
  a URL that is not of the GitHub tree shape.
\<close>

theorem github_tree_no_checksum:
  "(CODE_URL e = Some url \<and> github_tree_shape url \<longrightarrow>
      \<not> list_ex is_sha256sum (issued (prepare w e))
      \<and> (fetch_code w url cs tra = Next fc trb \<longrightarrow> snd fc = [])
      \<and> (entrypoint w e = Some (st, tr) \<longrightarrow> \<not> list_ex is_sha256sum tr))
   \<and> (Sha256sumCheck s f \<in> set (issued (prepare w e))
        \<or> entrypoint w e = Some (st, tr) \<and> Sha256sumCheck s f \<in> set tr
      \<longrightarrow> (f = ''bundle.zip'' \<or> f = ''bundle.tgz'') \<and> s \<noteq> []
          \<and> CODE_CHECKSUM_SHA256 e = Some s
          \<and> (\<exists>u. CODE_URL e = Some u \<and> \<not> github_tree_shape u))"
proof (intro conjI impI)
  assume g: "CODE_URL e = Some url \<and> github_tree_shape url"
  let ?P = "\<lambda>c. \<not> is_sha256sum c"
  have "adds ?P [] (prepare w e)"
    by (rule prepare_adds) (use g in auto)
  then show "\<not> list_ex is_sha256sum (issued (prepare w e))"
    by (simp add: adds_def extends_def list_ex_iff list_all_iff)
  show "snd fc = []" if "fetch_code w url cs tra = Next fc trb"
    using fetch_code_checksum [OF that] g by simp
  show "\<not> list_ex is_sha256sum tr" if r: "entrypoint w e = Some (st, tr)"
  proof -
    have "list_all ?P tr"
      by (rule entrypoint_extends [OF _ _ r]) (use g in auto)
    then show ?thesis by (simp add: list_ex_iff list_all_iff)
  qed
next
  let ?cs = "or_default [] (CODE_CHECKSUM_SHA256 e)"
  let ?P = "\<lambda>c. is_sha256sum c \<longrightarrow>
      ?cs \<noteq> [] \<and> (c = Sha256sumCheck ?cs ''bundle.zip'' \<or> c = Sha256sumCheck ?cs ''bundle.tgz'')
      \<and> (\<exists>u. CODE_URL e = Some u \<and> \<not> github_tree_shape u)"
  assume a: "Sha256sumCheck s f \<in> set (issued (prepare w e))
        \<or> entrypoint w e = Some (st, tr) \<and> Sha256sumCheck s f \<in> set tr"
  have "adds ?P [] (prepare w e)"
    by (rule prepare_adds) auto
  then have 1: "list_all ?P (issued (prepare w e))"
    by (simp add: adds_def extends_def)
  have 2: "list_all ?P tr" if r: "entrypoint w e = Some (st, tr)"
    by (rule entrypoint_extends [OF _ _ r]) auto
  have "?P (Sha256sumCheck s f)"
  proof (rule disjE [OF a])
    assume "Sha256sumCheck s f \<in> set (issued (prepare w e))"
    with 1 show ?thesis unfolding list_all_iff by (rule bspec)
  next
    assume b: "entrypoint w e = Some (st, tr) \<and> Sha256sumCheck s f \<in> set tr"
    then have "list_all ?P tr" using 2 by blast
    with b show ?thesis unfolding list_all_iff by blast
  qed
  then have p: "?cs \<noteq> []" "s = ?cs" "f = ''bundle.zip'' \<or> f = ''bundle.tgz''"
    "\<exists>u. CODE_URL e = Some u \<and> \<not> github_tree_shape u"
    by auto
  show "f = ''bundle.zip'' \<or> f = ''bundle.tgz''" using p by blast
  show "s \<noteq> []" using p(1,2) by simp
  show "CODE_CHECKSUM_SHA256 e = Some s"
    using p(1,2) by (auto simp: or_default_def split: option.splits if_splits)
  show "\<exists>u. CODE_URL e = Some u \<and> \<not> github_tree_shape u" using p by blast
qed

theorem github_tree_no_checksum_witness:
  "github_tree_shape ''https://github.com/x/y/tree/main/p''
   \<and> \<not> list_ex is_sha256sum
        (issued (prepare (world_ok ''0'' 0)
           ((env_of ''https://github.com/x/y/tree/main/p'' ''node index.js'')
              \<lparr> CODE_CHECKSUM_SHA256 := Some ''abc'' \<rparr>)))
   \<and> map_option fst
        (entrypoint (world_ok ''0'' 0)
           ((env_of ''https://github.com/x/y/tree/main/p'' ''node index.js'')
              \<lparr> CODE_CHECKSUM_SHA256 := Some ''abc'' \<rparr>)) = Some 0
   \<and> Sha256sumCheck ''abc'' ''bundle.zip''
       \<in> set (issued (prepare (world_ok ''0'' 0)
                  ((env_of ''https://h/x.zip'' ''node index.js'')
                     \<lparr> CODE_CHECKSUM_SHA256 := Some ''abc'' \<rparr>)))
   \<and> \<not> github_tree_shape ''https://h/x.zip''"
proof -
  have g: "github_tree_shape ''https://github.com/x/y/tree/main/p''"
    and n: "\<not> github_tree_shape ''https://h/x.zip''"
    by (simp_all add: github_tree_shape_def glob_def)
  have r: "map_option fst
        (entrypoint (world_ok ''0'' 0)
           ((env_of ''https://github.com/x/y/tree/main/p'' ''node index.js'')
              \<lparr> CODE_CHECKSUM_SHA256 := Some ''abc'' \<rparr>)) = Some 0"
    by code_simp
  have z: "Sha256sumCheck ''abc'' ''bundle.zip''
       \<in> set (issued (prepare (world_ok ''0'' 0)
                  ((env_of ''https://h/x.zip'' ''node index.js'')
                     \<lparr> CODE_CHECKSUM_SHA256 := Some ''abc'' \<rparr>)))"
    by code_simp
  from github_tree_no_checksum
      [where e = "(env_of ''https://github.com/x/y/tree/main/p'' ''node index.js'')
              \<lparr> CODE_CHECKSUM_SHA256 := Some ''abc'' \<rparr>"
         and url = "''https://github.com/x/y/tree/main/p''" and w = "world_ok ''0'' 0"
         and s = "[]" and f = "[]" and st = 0 and tr = "[]" and cs = "[]" and tra = "[]"
         and fc = "([], [])" and trb = "[]"]
    g
  have "\<not> list_ex is_sha256sum
        (issued (prepare (world_ok ''0'' 0)
           ((env_of ''https://github.com/x/y/tree/main/p'' ''node index.js'')
              \<lparr> CODE_CHECKSUM_SHA256 := Some ''abc'' \<rparr>)))"
    by (simp add: env_of_def)
  then show ?thesis using g n r z by blast
qed

subsection \<open>Properties of the wait for the job\<close>

lemma monitor_ends:
  "session_ends w socket session tr k \<Longrightarrow>
   monitor w socket session tr
     = Some (Next () (tr @ polls socket session k @ [TmuxHasSession socket session]))"
proof (induction k arbitrary: tr)
  case 0
  then show ?case by (subst monitor.simps) simp
next
  case (Suc k)
  from Suc.prems have h: "fst (sys w tr (TmuxHasSession socket session)) = 0"
    and s: "fst (sys w (tr @ [TmuxHasSession socket session]) (Sleep 2)) = 0"
    and r: "session_ends w socket session (tr @ [TmuxHasSession socket session, Sleep 2]) k"
    by simp_all
  show ?case
    by (subst monitor.simps) (simp add: h s Suc.IH [OF r])
qed

lemma exit_on_job_false:
  "(or_default ''true'' (EXIT_ON_JOB e) = ''false'') = (EXIT_ON_JOB e = Some ''false'')"
  by (auto simp: or_default_def split: option.splits)

lemma supervise_keep_alive:
  assumes "EXIT_ON_JOB e = Some ''false''"
  shows "supervise w e tr
    = (case wait_ttyd w (say ''[entrypoint] EXIT_ON_JOB=false, keeping container alive'' tr) of
         None \<Rightarrow> None
       | Some s \<Rightarrow>
           Some (s, say ''[entrypoint] EXIT_ON_JOB=false, keeping container alive'' tr @ [WaitTtyd]))"
  using assms
  by (auto simp: supervise_def Let_def exit_on_job_false [symmetric] split: option.splits)

lemma supervise_exit_on_job:
  assumes f: "EXIT_ON_JOB e \<noteq> Some ''false''"
    and ends: "session_ends w (job_socket e) (job_session e) tr k"
    and wait: "wait_ttyd w (snd (collect_job_code w (exit_file_of (job_session e))
                                  (finished_trace e tr k)) @ [KillTermTtyd]) = Some s"
  shows "map_option fst (supervise w e tr)
     = Some (exit_status (fst (collect_job_code w (exit_file_of (job_session e))
                                 (finished_trace e tr k))))"
proof -
  have m: "monitor w (or_default ''/tmp/tmux/tmux.sock'' (TMUX_SOCKET e))
             (or_default ''job'' (TMUX_SESSION e)) tr
           = Some (Next () (tr @ polls (job_socket e) (job_session e) k
                    @ [TmuxHasSession (job_socket e) (job_session e)]))"
    using monitor_ends [OF ends] by (simp add: job_socket_def job_session_def)
  obtain jc tr3 where j: "collect_job_code w (exit_file_of (job_session e))
                            (finished_trace e tr k) = (jc, tr3)"
    by fastforce
  show ?thesis
    using f wait j
    unfolding supervise_def Let_def exit_on_job_false m
    by (simp add: attempt_def finished_trace_def [symmetric] job_session_def [symmetric])
qed

lemma collect_absent:
  "fst (sys w tr (TestF file)) \<noteq> 0 \<Longrightarrow> fst (collect_job_code w file tr) = ''0''"
  by (simp add: collect_job_code_def attempt_def)

lemma collect_recorded:
  "fst (sys w tr (TestF file)) = 0 \<Longrightarrow> sys w (tr @ [TestF file]) (Cat file) = (0, content) \<Longrightarrow>
   fst (collect_job_code w file tr) = content"
  by (simp add: collect_job_code_def attempt_def Let_def)

lemma exit_status_zero: "exit_status ''0'' = 0"
  by code_simp

lemma legal_number_not_dashes: "legal_number ''--'' = None"
  by code_simp

lemma exit_status_legal: "legal_number content = Some v \<Longrightarrow> exit_status content = nat (v mod 256)"
  using legal_number_not_dashes by (auto simp: exit_status_def)

lemma exit_status_one: "exit_status ''1'' = 1"
  by code_simp

lemma collect_unreadable:
  "fst (sys w tr (TestF file)) = 0 \<Longrightarrow> fst (sys w (tr @ [TestF file]) (Cat file)) \<noteq> 0 \<Longrightarrow>
   fst (collect_job_code w file tr) = ''1''"
  by (simp add: collect_job_code_def attempt_def Let_def)

text \<open>
  The branch of EXIT_ON_JOB other than \<open>false\<close>: when the tmux session is found ended after
  some number of polls and the wait for \<open>ttyd\<close> returns, the script ends with status 0 if
  the exit-code file is not there, with the number written in it (modulo 256) if it is
  there and \<open>cat\<close> reads a number from it, and with status 1 if \<open>cat\<close> fails. The exit
  status of the whole script is that of this last part whenever the lines before it did
  not end the script.
\<close>

lemma exit_on_job_exit_code:
  assumes "EXIT_ON_JOB e \<noteq> Some ''false''"
    and "session_ends w (job_socket e) (job_session e) tr k"
    and "wait_ttyd w (snd (collect_job_code w (exit_file_of (job_session e))
                            (finished_trace e tr k)) @ [KillTermTtyd]) = Some s"
  shows "fst (sys w (finished_trace e tr k) (TestF (exit_file_of (job_session e)))) \<noteq> 0
          \<Longrightarrow> map_option fst (supervise w e tr) = Some 0"
    and "fst (sys w (finished_trace e tr k) (TestF (exit_file_of (job_session e)))) = 0
          \<Longrightarrow> sys w (finished_trace e tr k @ [TestF (exit_file_of (job_session e))])
                  (Cat (exit_file_of (job_session e))) = (0, content)
          \<Longrightarrow> legal_number content = Some v
          \<Longrightarrow> map_option fst (supervise w e tr) = Some (nat (v mod 256))"
    and "fst (sys w (finished_trace e tr k) (TestF (exit_file_of (job_session e)))) = 0
          \<Longrightarrow> fst (sys w (finished_trace e tr k @ [TestF (exit_file_of (job_session e))])
                  (Cat (exit_file_of (job_session e)))) \<noteq> 0
          \<Longrightarrow> map_option fst (supervise w e tr) = Some 1"
    and "prepare w e = Next u tr \<Longrightarrow> entrypoint w e = supervise w e tr"
proof -
  have r: "map_option fst (supervise w e tr)
     = Some (exit_status (fst (collect_job_code w (exit_file_of (job_session e))
                                 (finished_trace e tr k))))"
    using assms by (rule supervise_exit_on_job)
  show "map_option fst (supervise w e tr) = Some 0"
    if "fst (sys w (finished_trace e tr k) (TestF (exit_file_of (job_session e)))) \<noteq> 0"
    using r collect_absent [OF that] by (simp add: exit_status_zero)
  show "map_option fst (supervise w e tr) = Some (nat (v mod 256))"
    if "fst (sys w (finished_trace e tr k) (TestF (exit_file_of (job_session e)))) = 0"
      "sys w (finished_trace e tr k @ [TestF (exit_file_of (job_session e))])
                  (Cat (exit_file_of (job_session e))) = (0, content)"
      "legal_number content = Some v"
    using r collect_recorded [OF that(1,2)] exit_status_legal [OF that(3)] by simp
  show "map_option fst (supervise w e tr) = Some 1"
    if "fst (sys w (finished_trace e tr k) (TestF (exit_file_of (job_session e)))) = 0"
      "fst (sys w (finished_trace e tr k @ [TestF (exit_file_of (job_session e))])
                  (Cat (exit_file_of (job_session e)))) \<noteq> 0"
    using r collect_unreadable [OF that] by (simp add: exit_status_one)
  show "entrypoint w e = supervise w e tr" if "prepare w e = Next u tr"
    using that by (simp add: entrypoint_def)
qed

lemma exit_on_job_exit_code_example:
  "session_ends (world_after 2 ''3'' 0) (job_socket (env_of ''https://h/x.zip'' ''node index.js''))
     (job_session (env_of ''https://h/x.zip'' ''node index.js'')) [] 2
   \<and> map_option fst (supervise (world_after 2 ''3'' 0) (env_of ''https://h/x.zip'' ''node index.js'') [])
       = Some 3
   \<and> map_option fst (entrypoint (world_ok ''137'' 0) (env_of ''https://h/x.zip'' ''node index.js''))
       = Some 137"
  by code_simp

text \<open>
  Claim C10, where the script departs from it. With EXIT_ON_JOB equal to \<open>false\<close> the
  script waits for \<open>ttyd\<close> and then has \<open>exit 0\<close>; the wait is a plain command under
  \<open>set -e\<close>, so when \<open>ttyd\<close> ends with status 1 the script ends at the wait with status 1,
  and \<open>exit 0\<close> is not reached: the last command run is the wait. With a \<open>ttyd\<close> that ends
  with status 0 the same run ends with status 0.
\<close>

theorem keep_alive_exit_status:
  "EXIT_ON_JOB ((env_of ''https://h/x.zip'' ''node index.js'') \<lparr> EXIT_ON_JOB := Some ''false'' \<rparr>)
     = Some ''false''
   \<and> wait_ttyd (world_ok ''0'' 1) [] = Some 1
   \<and> map_option fst
        (entrypoint (world_ok ''0'' 1)
           ((env_of ''https://h/x.zip'' ''node index.js'') \<lparr> EXIT_ON_JOB := Some ''false'' \<rparr>))
       = Some 1
   \<and> map_option (\<lambda>r. last (snd r))
        (entrypoint (world_ok ''0'' 1)
           ((env_of ''https://h/x.zip'' ''node index.js'') \<lparr> EXIT_ON_JOB := Some ''false'' \<rparr>))
       = Some WaitTtyd
   \<and> map_option fst
        (entrypoint (world_ok ''0'' 0)
           ((env_of ''https://h/x.zip'' ''node index.js'') \<lparr> EXIT_ON_JOB := Some ''false'' \<rparr>))
       = Some 0"
  by code_simp

end
